theory Spec2Isabelle
  imports Main "HOL-Library.Char_ord" "HOL-Library.List_Lexorder"
begin

section \<open>The values of the JSON feeds\<close>

text \<open>
  \<open>index.js\<close> reads the feeds with \<open>res.json()\<close> and walks the result with
  property reads and optional chaining. A value is what \<open>JSON.parse\<close> can return,
  with \<open>JUndefined\<close> for what a read of a missing property gives. \<open>JNum n\<close> is the
  number read from the integer numeral \<open>n\<close> (scores, epoch seconds and counts are
  such): \<open>n\<close> itself up to \<open>2 ^ 53\<close> in size, the nearest double beyond. Numbers
  with a fraction are left out. An object is the list of its own properties, read at the
  first entry of a key; a string is its UTF-8 bytes.
\<close>

datatype jsval =
    JUndefined
  | JNull
  | JBool bool
  | JNum int
  | JStr string
  | JArr "jsval list"
  | JObj "(string \<times> jsval) list"

datatype exn = TypeError | RangeError | SyntaxError | FetchError

text \<open>\<open>!v\<close> is \<open>\<not> truthy v\<close>; \<open>a || b\<close> is \<open>a\<close> when \<open>a\<close> is truthy and \<open>b\<close> otherwise.\<close>

fun truthy :: "jsval \<Rightarrow> bool" where
  "truthy JUndefined = False"
| "truthy JNull = False"
| "truthy (JBool b) = b"
| "truthy (JNum n) = (n \<noteq> 0)"
| "truthy (JStr s) = (s \<noteq> [])"
| "truthy (JArr xs) = True"
| "truthy (JObj fs) = True"

definition orElse :: "jsval \<Rightarrow> jsval \<Rightarrow> jsval" where
  "orElse a b = (if truthy a then a else b)"

fun nullish :: "jsval \<Rightarrow> bool" where
  "nullish JUndefined = True"
| "nullish JNull = True"
| "nullish v = False"

text \<open>
  \<open>v.k\<close> on a value that is neither \<open>null\<close> nor \<open>undefined\<close>, for the property
  names the pollers read (none of them is a property of a string, a number, a boolean or
  an array). On \<open>null\<close> and \<open>undefined\<close> the read throws a TypeError, which the
  pollers' definitions write out where they read.
\<close>

fun getProp :: "jsval \<Rightarrow> string \<Rightarrow> jsval" where
  "getProp (JObj fs) k = (case map_of fs k of Some v \<Rightarrow> v | None \<Rightarrow> JUndefined)"
| "getProp v k = JUndefined"

text \<open>\<open>v?.k\<close>.\<close>

definition optMember :: "jsval \<Rightarrow> string \<Rightarrow> jsval" where
  "optMember v k = (if nullish v then JUndefined else getProp v k)"

text \<open>\<open>a ?? b\<close>.\<close>

definition coalesce :: "jsval \<Rightarrow> jsval \<Rightarrow> jsval" where
  "coalesce a b = (if nullish a then b else a)"

text \<open>
  The code points of a string: each byte that is no continuation byte (\<open>10xxxxxx\<close>)
  starts one.
\<close>

definition continuation :: "char \<Rightarrow> bool" where
  "continuation c = (128 \<le> (of_char c :: nat) \<and> (of_char c :: nat) < 192)"

function codePoints :: "string \<Rightarrow> string list" where
  "codePoints [] = []"
| "codePoints (c # cs) =
     (c # takeWhile continuation cs) # codePoints (dropWhile continuation cs)"
  by pat_completeness auto
termination
  by (relation "measure length") (auto simp: length_dropWhile_le less_Suc_eq_le)

text \<open>
  \<open>for (const x of v)\<close>: the elements of an array, the code points of a string, and a
  TypeError on everything else, which is not iterable.
\<close>

fun iterate :: "jsval \<Rightarrow> exn + jsval list" where
  "iterate (JArr xs) = Inr xs"
| "iterate (JStr s) = Inr (map JStr (codePoints s))"
| "iterate v = Inl TypeError"

text \<open>The decimal digits of a natural number.\<close>

fun showNat :: "nat \<Rightarrow> string" where
  "showNat n = (if n < 10 then [''0123456789'' ! n]
                else showNat (n div 10) @ [''0123456789'' ! (n mod 10)])"

declare showNat.simps [simp del]

definition showInt :: "int \<Rightarrow> string" where
  "showInt i = (if i < 0 then CHR ''-'' # showNat (nat (- i)) else showNat (nat i))"

text \<open>
  The text of a number: the decimal digits of an integer up to \<open>2 ^ 53\<close> in size.
  What JavaScript prints for a larger one (the digits of the nearest double, in
  exponent form from \<open>10 ^ 21\<close> on) is left open, as \<open>big\<close>.
\<close>

definition numberStr :: "(int \<Rightarrow> string) \<Rightarrow> int \<Rightarrow> string" where
  "numberStr big n = (if \<bar>n\<bar> \<le> 9007199254740992 then showInt n else big n)"

fun joinWith :: "string \<Rightarrow> string list \<Rightarrow> string" where
  "joinWith sep [] = []"
| "joinWith sep [x] = x"
| "joinWith sep (x # y # ys) = x @ sep @ joinWith sep (y # ys)"

text \<open>The results of a list of conversions, or the first exception among them.\<close>

fun collect :: "(exn + string) list \<Rightarrow> exn + string list" where
  "collect [] = Inr []"
| "collect (Inl e # rs) = Inl e"
| "collect (Inr x # rs) = (case collect rs of Inl e \<Rightarrow> Inl e | Inr xs \<Rightarrow> Inr (x # xs))"

text \<open>
  The string a template literal \<open>`${v}`\<close> puts in for \<open>v\<close>, or the TypeError it
  throws. An object is \<open>[object Object]\<close> by the \<open>toString\<close> it inherits; with a
  property \<open>toString\<close> of its own, which is no function in a value read from JSON,
  the conversion finds no method that gives a primitive and throws. An array is its
  elements joined by commas, \<open>null\<close> and \<open>undefined\<close> elements left empty, and
  throws where an element does.
\<close>

fun toStr :: "(int \<Rightarrow> string) \<Rightarrow> jsval \<Rightarrow> exn + string" where
  "toStr big JUndefined = Inr ''undefined''"
| "toStr big JNull = Inr ''null''"
| "toStr big (JBool b) = Inr (if b then ''true'' else ''false'')"
| "toStr big (JNum n) = Inr (numberStr big n)"
| "toStr big (JStr s) = Inr s"
| "toStr big (JArr xs) =
     (case collect (map (\<lambda>x. if nullish x then Inr [] else toStr big x) xs) of
        Inl e \<Rightarrow> Inl e
      | Inr ss \<Rightarrow> Inr (joinWith '','' ss))"
| "toStr big (JObj fs) =
     (if ''toString'' \<in> set (map fst fs) then Inl TypeError else Inr ''[object Object]'')"

section \<open>The posts table\<close>

text \<open>
  What better-sqlite3 binds for a parameter: a number (\<open>SInt n\<close> is the number
  \<open>JNum n\<close>), a string, and \<open>NULL\<close> for \<open>null\<close> and \<open>undefined\<close>. A boolean, an array or an object is refused with a
  TypeError before the statement runs.
\<close>

datatype sqlval = SNull | SInt int | SText string

fun bindable :: "jsval \<Rightarrow> bool" where
  "bindable (JBool b) = False"
| "bindable (JArr xs) = False"
| "bindable (JObj fs) = False"
| "bindable v = True"

fun bindValue :: "jsval \<Rightarrow> sqlval" where
  "bindValue (JNum n) = SInt n"
| "bindValue (JStr s) = SText s"
| "bindValue v = SNull"

text \<open>
  The object \<open>insertPost.run\<close> is given. Every caller passes a template literal for
  \<open>id\<close>, a string constant for \<open>source\<close> and the result of \<open>toISOString()\<close> for
  \<open>created_at\<close>, so these three are strings.
\<close>

record params =
  p_id :: string
  p_source :: string
  p_title :: jsval
  p_body :: jsval
  p_url :: jsval
  p_author :: jsval
  p_score :: jsval
  p_subreddit :: jsval
  p_permalink :: jsval
  p_metrics :: jsval
  p_created_at :: string

text \<open>
  The eleven values of the \<open>INSERT\<close>'s \<open>VALUES\<close> list, as bound, and a row of
  \<open>posts\<close>: the same columns and \<open>fetched_at\<close>, which the statement leaves to the
  column's default \<open>datetime('now')\<close>. \<open>id\<close> is the primary key. A column holds
  the value as it was bound: what SQLite makes of a number on its way into a \<open>TEXT\<close>
  column, or of a numeral on its way into \<open>score\<close>, is left out.
\<close>

record item =
  r_id :: string
  r_source :: string
  r_title :: sqlval
  r_body :: sqlval
  r_url :: sqlval
  r_author :: sqlval
  r_score :: sqlval
  r_subreddit :: sqlval
  r_permalink :: sqlval
  r_metrics :: sqlval
  r_created_at :: string

record row = item +
  r_fetched_at :: string

definition stored :: "item \<Rightarrow> string \<Rightarrow> row" where
  "stored x now =
     \<lparr>r_id = r_id x, r_source = r_source x, r_title = r_title x, r_body = r_body x,
      r_url = r_url x, r_author = r_author x, r_score = r_score x,
      r_subreddit = r_subreddit x, r_permalink = r_permalink x, r_metrics = r_metrics x,
      r_created_at = r_created_at x, r_fetched_at = now\<rparr>"

definition ids :: "row list \<Rightarrow> string set" where
  "ids rows = set (map r_id rows)"

text \<open>
  \<open>insertPost\<close> (index.js 118-121), \<open>INSERT OR IGNORE INTO posts ... VALUES ...\<close>, run
  when the clock reads \<open>now\<close>: a row whose \<open>id\<close> is already in the table is ignored.
  The result is \<open>changes\<close> and the table, rows in the order they were inserted.
\<close>

definition insertPost :: "string \<Rightarrow> item \<Rightarrow> row list \<Rightarrow> nat \<times> row list" where
  "insertPost now x rows =
     (if r_id x \<in> ids rows then (0, rows) else (1, rows @ [stored x now]))"

text \<open>
  \<open>ORDER BY created_at DESC\<close>: \<open>created_at\<close> is \<open>TEXT\<close>, compared byte by byte.
  SQL leaves the order of rows with equal \<open>created_at\<close> open; here they stay in the
  order they were inserted.
\<close>

fun insertDesc :: "row \<Rightarrow> row list \<Rightarrow> row list" where
  "insertDesc r [] = [r]"
| "insertDesc r (x # xs) =
     (if r_created_at r < r_created_at x then x # insertDesc r xs else r # x # xs)"

definition orderByCreatedAtDesc :: "row list \<Rightarrow> row list" where
  "orderByCreatedAtDesc rows = foldr insertDesc rows []"

text \<open>\<open>selectBySource\<close>, \<open>selectAll\<close> and \<open>countBySource\<close> (index.js 123-125).\<close>

definition selectBySource :: "string \<Rightarrow> row list \<Rightarrow> row list" where
  "selectBySource src rows =
     take 200 (orderByCreatedAtDesc (filter (\<lambda>r. r_source r = src) rows))"

definition selectAll :: "row list \<Rightarrow> row list" where
  "selectAll rows = take 400 (orderByCreatedAtDesc rows)"

definition countBySource :: "row list \<Rightarrow> (string \<times> nat) list" where
  "countBySource rows =
     map (\<lambda>src. (src, length (filter (\<lambda>r. r_source r = src) rows)))
       (remdups (map r_source rows))"

text \<open>
  Each row's \<open>created_at\<close> text is greater than the next row's, or not less, in the
  order of their bytes.
\<close>

fun strictlyDescending :: "row list \<Rightarrow> bool" where
  "strictlyDescending (x # y # rest) =
     (r_created_at y < r_created_at x \<and> strictlyDescending (y # rest))"
| "strictlyDescending rows = True"

fun descending :: "row list \<Rightarrow> bool" where
  "descending (x # y # rest) =
     (r_created_at y \<le> r_created_at x \<and> descending (y # rest))"
| "descending rows = True"

section \<open>What a poll cycle reads and writes\<close>

text \<open>
  What \<open>fetch\<close> gives for one request: it rejects, or it resolves to a response with
  a status and a body. A body cannot be read at all, or is text that is not JSON, or is
  JSON.
\<close>

datatype body = Unreadable | NotJson | Json jsval

datatype response = FetchFailed | Response nat body

definition res_ok :: "nat \<Rightarrow> bool" where
  "res_ok status = (200 \<le> status \<and> status \<le> 299)"

fun res_json :: "body \<Rightarrow> exn + jsval" where
  "res_json Unreadable = Inl FetchError"
| "res_json NotJson = Inl SyntaxError"
| "res_json (Json v) = Inr v"

fun res_text :: "body \<Rightarrow> exn + unit" where
  "res_text Unreadable = Inl FetchError"
| "res_text b = Inr ()"

text \<open>
  Everything a cycle takes from outside the program: the two environment variables, the
  response to each request (\<open>searchResp w i\<close> answers the \<open>i\<close>-th search of the cycle),
  the number \<open>xTurn w\<close> of Reddit's responses that are handled before the response of
  X is, the clock behind \<open>datetime('now')\<close> (read by the \<open>n\<close>-th statement the process
  runs), and four built-ins that are left open: \<open>numberText w\<close> is the text of a
  number beyond \<open>2 ^ 53\<close>; \<open>isoOfSeconds w v\<close> is
  \<open>new Date(v * 1000).toISOString()\<close> and \<open>isoOfDate w v\<close> is
  \<open>new Date(v).toISOString()\<close>, the text or the exception thrown (a RangeError
  for an invalid date, a TypeError where \<open>v\<close> has no primitive value);
  \<open>stringify w\<close> is \<open>JSON.stringify\<close>.
\<close>

record world =
  X_BEARER_TOKEN :: "string option"
  REDDIT_SUBREDDITS :: "string list"
  newResp :: response
  searchResp :: "nat \<Rightarrow> response"
  commentsResp :: response
  xResp :: response
  xTurn :: nat
  clock :: "nat \<Rightarrow> string"
  numberText :: "int \<Rightarrow> string"
  isoOfSeconds :: "jsval \<Rightarrow> exn + string"
  isoOfDate :: "jsval \<Rightarrow> exn + string"
  stringify :: "jsval \<Rightarrow> string"

definition REDDIT_PRIMARY_SUB :: string where
  "REDDIT_PRIMARY_SUB = ''puertovallarta''"

text \<open>The lines the pollers write to the console, by the call that writes them.\<close>

datatype logev =
    RedditPolling
  | RedditNewError exn
  | RedditStatus string nat
  | RedditError string exn
  | RedditDone nat
  | CommentsStatus nat
  | CommentsError exn
  | CommentsDone nat
  | XSkipping
  | XPolling
  | XStatus nat
  | XError exn
  | XDone nat

text \<open>The lines written with \<open>console.error\<close>.\<close>

fun isError :: "logev \<Rightarrow> bool" where
  "isError (RedditNewError e) = True"
| "isError (RedditStatus sub status) = True"
| "isError (RedditError sub e) = True"
| "isError (CommentsStatus status) = True"
| "isError (CommentsError e) = True"
| "isError (XStatus status) = True"
| "isError (XError e) = True"
| "isError ev = False"

text \<open>
  The state a cycle works on: the table, the number of statements the process has run,
  and the console.
\<close>

record state =
  posts :: "row list"
  stmts :: nat
  console :: "logev list"

definition say :: "logev \<Rightarrow> state \<Rightarrow> state" where
  "say ev s = s\<lparr>console := console s @ [ev]\<rparr>"

definition bindParams :: "params \<Rightarrow> item" where
  "bindParams p =
     \<lparr>r_id = p_id p, r_source = p_source p, r_title = bindValue (p_title p),
      r_body = bindValue (p_body p), r_url = bindValue (p_url p),
      r_author = bindValue (p_author p), r_score = bindValue (p_score p),
      r_subreddit = bindValue (p_subreddit p), r_permalink = bindValue (p_permalink p),
      r_metrics = bindValue (p_metrics p), r_created_at = p_created_at p\<rparr>"

definition paramsBindable :: "params \<Rightarrow> bool" where
  "paramsBindable p =
     list_all bindable [p_title p, p_body p, p_url p, p_author p, p_score p,
       p_subreddit p, p_permalink p, p_metrics p]"

text \<open>
  \<open>insertPost.run(p)\<close>: the parameters are bound, which throws when one of them cannot
  be, and the statement runs. The result is \<open>result.changes\<close> and the new state.
\<close>

definition run :: "world \<Rightarrow> params \<Rightarrow> state \<Rightarrow> exn + nat \<times> state" where
  "run w p s =
     (if paramsBindable p then
        (case insertPost (clock w (stmts s)) (bindParams p) (posts s) of
           (changes, rows) \<Rightarrow> Inr (changes, s\<lparr>posts := rows, stmts := Suc (stmts s)\<rparr>))
      else Inl TypeError)"

section \<open>The Reddit poller\<close>

text \<open>
  The object built for a child of a posts listing (index.js 142-155 and, word for word
  the same, 175-188): \<open>const d = child.data\<close> and the object literal, its properties
  evaluated in their order. Reading \<open>child.data\<close> or \<open>d.id\<close> throws on \<open>null\<close>
  and \<open>undefined\<close>; the two template literals and the date may throw.
\<close>

definition redditPost :: "world \<Rightarrow> jsval \<Rightarrow> exn + params" where
  "redditPost w child =
     (if nullish child then Inl TypeError
      else let d = getProp child ''data'' in
        if nullish d then Inl TypeError
        else
          (case toStr (numberText w) (getProp d ''id'') of
             Inl e \<Rightarrow> Inl e
           | Inr native \<Rightarrow>
               (case toStr (numberText w) (getProp d ''permalink'') of
                  Inl e \<Rightarrow> Inl e
                | Inr link \<Rightarrow>
                    (case isoOfSeconds w (getProp d ''created_utc'') of
                       Inl e \<Rightarrow> Inl e
                     | Inr created \<Rightarrow>
                         Inr \<lparr>p_id = ''reddit_'' @ native,
                              p_source = ''reddit'',
                              p_title = getProp d ''title'',
                              p_body = orElse (getProp d ''selftext'') JNull,
                              p_url = getProp d ''url'',
                              p_author = getProp d ''author'',
                              p_score = getProp d ''score'',
                              p_subreddit = getProp d ''subreddit'',
                              p_permalink = JStr (''https://www.reddit.com'' @ link),
                              p_metrics = JNull,
                              p_created_at = created\<rparr>))))"

text \<open>
  The loop over the children, inside its \<open>try\<close>: it ends normally, or at the first
  exception, with the rows inserted so far in the table and counted in \<open>inserted\<close>.
\<close>

fun postsLoop :: "world \<Rightarrow> jsval list \<Rightarrow> state \<Rightarrow> nat \<Rightarrow> exn option \<times> state \<times> nat" where
  "postsLoop w [] s inserted = (None, s, inserted)"
| "postsLoop w (child # rest) s inserted =
     (case redditPost w child of
        Inl e \<Rightarrow> (Some e, s, inserted)
      | Inr p \<Rightarrow>
          (case run w p s of
             Inl e \<Rightarrow> (Some e, s, inserted)
           | Inr (changes, s') \<Rightarrow>
               postsLoop w rest s' (if changes > 0 then inserted + 1 else inserted)))"

text \<open>\<open>data?.data?.children ?? []\<close>.\<close>

definition children :: "jsval \<Rightarrow> jsval" where
  "children data = coalesce (optMember (optMember data ''data'') ''children'') (JArr [])"

definition insertListing ::
  "world \<Rightarrow> jsval \<Rightarrow> state \<Rightarrow> nat \<Rightarrow> exn option \<times> state \<times> nat" where
  "insertListing w data s inserted =
     (case iterate (children data) of
        Inl e \<Rightarrow> (Some e, s, inserted)
      | Inr cs \<Rightarrow> postsLoop w cs s inserted)"

text \<open>
  Step 1 of \<open>pollReddit\<close> (index.js 135-161), the primary subreddit's \<open>/new\<close>: a
  response that is not ok is passed over in silence, an exception is logged.
\<close>

definition pollPrimary :: "world \<Rightarrow> state \<Rightarrow> nat \<Rightarrow> state \<times> nat" where
  "pollPrimary w s inserted =
     (case newResp w of
        FetchFailed \<Rightarrow> (say (RedditNewError FetchError) s, inserted)
      | Response status b \<Rightarrow>
          if res_ok status then
            (case res_json b of
               Inl e \<Rightarrow> (say (RedditNewError e) s, inserted)
             | Inr data \<Rightarrow>
                 (case insertListing w data s inserted of
                    (Some e, s', n) \<Rightarrow> (say (RedditNewError e) s', n)
                  | (None, s', n) \<Rightarrow> (s', n)))
          else (s, inserted))"

text \<open>
  Step 2 (index.js 163-194), the body of the loop over the other subreddits, for the
  \<open>i\<close>-th of them.
\<close>

definition searchSub :: "world \<Rightarrow> nat \<Rightarrow> string \<Rightarrow> state \<Rightarrow> nat \<Rightarrow> state \<times> nat" where
  "searchSub w i subreddit s inserted =
     (case searchResp w i of
        FetchFailed \<Rightarrow> (say (RedditError subreddit FetchError) s, inserted)
      | Response status b \<Rightarrow>
          if \<not> res_ok status then (say (RedditStatus subreddit status) s, inserted)
          else
            (case res_json b of
               Inl e \<Rightarrow> (say (RedditError subreddit e) s, inserted)
             | Inr data \<Rightarrow>
                 (case insertListing w data s inserted of
                    (Some e, s', n) \<Rightarrow> (say (RedditError subreddit e) s', n)
                  | (None, s', n) \<Rightarrow> (s', n))))"

text \<open>
  An \<open>async\<close> function gives way at each \<open>await\<close>. \<open>pollReddit\<close> waits for one
  response after the other: the primary listing (its wait is number 0), the \<open>i\<close>-th
  search (number \<open>i + 1\<close>), the comments listing (the number after the last search's).
  \<open>others k\<close> is what the rest of the program does to the state during wait \<open>k\<close>.
  Between a response and the \<open>await\<close> of its \<open>json()\<close> the poller changes nothing, so
  the two waits of a request count as one.
\<close>

type_synonym others = "nat \<Rightarrow> state \<Rightarrow> state"

fun searchLoop ::
  "others \<Rightarrow> world \<Rightarrow> nat \<Rightarrow> string list \<Rightarrow> state \<Rightarrow> nat \<Rightarrow> state \<times> nat" where
  "searchLoop others w i [] s inserted = (s, inserted)"
| "searchLoop others w i (subreddit # rest) s inserted =
     (case searchSub w i subreddit (others (Suc i) s) inserted of
        (s', n) \<Rightarrow> searchLoop others w (Suc i) rest s' n)"

definition searchSubs :: "world \<Rightarrow> string list" where
  "searchSubs w = filter (\<lambda>s. s \<noteq> REDDIT_PRIMARY_SUB) (REDDIT_SUBREDDITS w)"

text \<open>
  The object built for a comment (index.js 220-232); \<open>c\<close> is \<open>child.data\<close>, which
  is neither \<open>null\<close> nor \<open>undefined\<close> here, \<open>c.body\<close> having been read.
\<close>

definition redditComment :: "world \<Rightarrow> jsval \<Rightarrow> exn + params" where
  "redditComment w c =
     (case toStr (numberText w) (getProp c ''id'') of
        Inl e \<Rightarrow> Inl e
      | Inr native \<Rightarrow>
          (case toStr (numberText w) (getProp c ''permalink'') of
             Inl e \<Rightarrow> Inl e
           | Inr link \<Rightarrow>
               (case isoOfSeconds w (getProp c ''created_utc'') of
                  Inl e \<Rightarrow> Inl e
                | Inr created \<Rightarrow>
                    Inr \<lparr>p_id = ''reddit_comment_'' @ native,
                         p_source = ''reddit_comment'',
                         p_title = JNull,
                         p_body = getProp c ''body'',
                         p_url = JNull,
                         p_author = getProp c ''author'',
                         p_score = getProp c ''score'',
                         p_subreddit = getProp c ''subreddit'',
                         p_permalink = JStr (''https://www.reddit.com'' @ link),
                         p_metrics =
                           JStr (stringify w
                             (JObj [(''link_id'', getProp c ''link_id''),
                                    (''link_title'', getProp c ''link_title'')])),
                         p_created_at = created\<rparr>)))"

text \<open>\<open>!c.body || c.body === "[deleted]" || c.body === "[removed]"\<close> (index.js 219).\<close>

definition skipped :: "jsval \<Rightarrow> bool" where
  "skipped b = (\<not> truthy b \<or> b = JStr ''[deleted]'' \<or> b = JStr ''[removed]'')"

fun commentsLoop :: "world \<Rightarrow> jsval list \<Rightarrow> state \<Rightarrow> nat \<Rightarrow> exn option \<times> state \<times> nat" where
  "commentsLoop w [] s inserted = (None, s, inserted)"
| "commentsLoop w (child # rest) s inserted =
     (if nullish child then (Some TypeError, s, inserted)
      else if getProp child ''kind'' \<noteq> JStr ''t1'' then commentsLoop w rest s inserted
      else let c = getProp child ''data'' in
        if nullish c then (Some TypeError, s, inserted)
        else if skipped (getProp c ''body'') then commentsLoop w rest s inserted
        else
          (case redditComment w c of
             Inl e \<Rightarrow> (Some e, s, inserted)
           | Inr p \<Rightarrow>
               (case run w p s of
                  Inl e \<Rightarrow> (Some e, s, inserted)
                | Inr (changes, s') \<Rightarrow>
                    commentsLoop w rest s' (if changes > 0 then inserted + 1 else inserted))))"

text \<open>
  \<open>pollSubredditComments\<close> (index.js 202-240): a response that is not ok is logged and
  the function returns; an exception is logged and the count is logged after it.
\<close>

definition pollSubredditComments :: "world \<Rightarrow> state \<Rightarrow> state" where
  "pollSubredditComments w s =
     (case commentsResp w of
        FetchFailed \<Rightarrow> say (CommentsDone 0) (say (CommentsError FetchError) s)
      | Response status b \<Rightarrow>
          if \<not> res_ok status then say (CommentsStatus status) s
          else
            (case res_json b of
               Inl e \<Rightarrow> say (CommentsDone 0) (say (CommentsError e) s)
             | Inr data \<Rightarrow>
                 (case iterate (children data) of
                    Inl e \<Rightarrow> say (CommentsDone 0) (say (CommentsError e) s)
                  | Inr cs \<Rightarrow>
                      (case commentsLoop w cs s 0 of
                         (Some e, s', n) \<Rightarrow> say (CommentsDone n) (say (CommentsError e) s')
                       | (None, s', n) \<Rightarrow> say (CommentsDone n) s'))))"

text \<open>\<open>pollReddit\<close> (index.js 129-200).\<close>

definition pollReddit :: "others \<Rightarrow> world \<Rightarrow> state \<Rightarrow> state" where
  "pollReddit others w s =
     (case pollPrimary w (others 0 (say RedditPolling s)) 0 of
        (s1, n1) \<Rightarrow>
          (case searchLoop others w 0 (searchSubs w) s1 n1 of
             (s2, n2) \<Rightarrow>
               pollSubredditComments w
                 (others (Suc (length (searchSubs w))) (say (RedditDone n2) s2))))"

section \<open>The X poller, the cycle and the refresh route\<close>

text \<open>\<open>X_BEARER_TOKEN\<close> is truthy: the variable is set and not empty.\<close>

definition tokenSet :: "world \<Rightarrow> bool" where
  "tokenSet w = (case X_BEARER_TOKEN w of None \<Rightarrow> False | Some token \<Rightarrow> token \<noteq> [])"

text \<open>The object built for a tweet (index.js 266-278).\<close>

definition xPost :: "world \<Rightarrow> jsval \<Rightarrow> exn + params" where
  "xPost w tweet =
     (if nullish tweet then Inl TypeError
      else
        (case toStr (numberText w) (getProp tweet ''id'') of
           Inl e \<Rightarrow> Inl e
         | Inr native \<Rightarrow>
             (case isoOfDate w (getProp tweet ''created_at'') of
                Inl e \<Rightarrow> Inl e
              | Inr created \<Rightarrow>
                  Inr \<lparr>p_id = ''x_'' @ native,
                       p_source = ''x'',
                       p_title = JNull,
                       p_body = getProp tweet ''text'',
                       p_url = JStr (''https://x.com/i/status/'' @ native),
                       p_author = getProp tweet ''author_id'',
                       p_score = JNum 0,
                       p_subreddit = JNull,
                       p_permalink = JNull,
                       p_metrics =
                         JStr (stringify w
                           (orElse (getProp tweet ''public_metrics'') (JObj []))),
                       p_created_at = created\<rparr>)))"

fun tweetsLoop :: "world \<Rightarrow> jsval list \<Rightarrow> state \<Rightarrow> nat \<Rightarrow> exn option \<times> state \<times> nat" where
  "tweetsLoop w [] s inserted = (None, s, inserted)"
| "tweetsLoop w (tweet # rest) s inserted =
     (case xPost w tweet of
        Inl e \<Rightarrow> (Some e, s, inserted)
      | Inr p \<Rightarrow>
          (case run w p s of
             Inl e \<Rightarrow> (Some e, s, inserted)
           | Inr (changes, s') \<Rightarrow>
               tweetsLoop w rest s' (if changes > 0 then inserted + 1 else inserted)))"

text \<open>\<open>data?.data ?? []\<close>.\<close>

definition tweets :: "jsval \<Rightarrow> jsval" where
  "tweets data = coalesce (optMember data ''data'') (JArr [])"

text \<open>
  \<open>pollX\<close> (index.js 244-286), in its two turns. The first runs to the \<open>await\<close> of
  \<open>fetch\<close>: without a token it warns and returns. The second handles the response: one
  that is not ok is logged with its text and the function returns; an exception is
  logged and the count is logged after it.
\<close>

definition pollX_start :: "world \<Rightarrow> state \<Rightarrow> state" where
  "pollX_start w s = (if \<not> tokenSet w then say XSkipping s else say XPolling s)"

definition pollX_response :: "world \<Rightarrow> state \<Rightarrow> state" where
  "pollX_response w s =
     (if \<not> tokenSet w then s
      else
        (case xResp w of
           FetchFailed \<Rightarrow> say (XDone 0) (say (XError FetchError) s)
         | Response status b \<Rightarrow>
             if \<not> res_ok status then
               (case res_text b of
                  Inl e \<Rightarrow> say (XDone 0) (say (XError e) s)
                | Inr u \<Rightarrow> say (XStatus status) s)
             else
               (case res_json b of
                  Inl e \<Rightarrow> say (XDone 0) (say (XError e) s)
                | Inr data \<Rightarrow>
                    (case iterate (tweets data) of
                       Inl e \<Rightarrow> say (XDone 0) (say (XError e) s)
                     | Inr ts \<Rightarrow>
                         (case tweetsLoop w ts s 0 of
                            (Some e, s', n) \<Rightarrow> say (XDone n) (say (XError e) s')
                          | (None, s', n) \<Rightarrow> say (XDone n) s')))))"

definition pollX :: "world \<Rightarrow> state \<Rightarrow> state" where
  "pollX w s = pollX_response w (pollX_start w s)"

text \<open>
  \<open>pollAll\<close> (index.js 290-292) awaits \<open>Promise.allSettled([pollReddit(), pollX()])\<close>,
  which settles when both pollers have and never rejects. \<open>pollReddit()\<close> runs to its
  first \<open>await\<close>, then \<open>pollX()\<close> to its own; from there on each response is handled
  when it comes, the one of X during wait \<open>xTurn w\<close> of \<open>pollReddit\<close>, or after
  \<open>pollReddit\<close> has returned.
\<close>

definition xTurns :: "world \<Rightarrow> others" where
  "xTurns w k s =
     (let s0 = (if k = 0 then pollX_start w s else s)
      in if xTurn w = k then pollX_response w s0 else s0)"

definition pollAll :: "world \<Rightarrow> state \<Rightarrow> state" where
  "pollAll w s =
     (let s' = pollReddit (xTurns w) w s
      in if Suc (length (searchSubs w)) < xTurn w then pollX_response w s' else s')"

text \<open>
  The handler of \<open>POST /api/refresh\<close> (index.js 319-323): the object it sends is
  \<open>{ ok: true, ...counts }\<close>, a property of \<open>counts\<close> replacing one of the same name
  before it.
\<close>

definition refresh :: "world \<Rightarrow> state \<Rightarrow> state \<times> (string \<rightharpoonup> jsval)" where
  "refresh w s =
     (let s' = pollAll w s;
          counts = map_of (map (\<lambda>(src, n). (src, JNum (int n))) (countBySource (posts s')))
      in (s', [''ok'' \<mapsto> JBool True] ++ counts))"

section \<open>Notions the properties are stated with\<close>

text \<open>
  \<open>grown P s s'\<close>: the table of \<open>s'\<close> is the table of \<open>s\<close> followed by new rows, all
  of which satisfy \<open>P\<close>.
\<close>

definition grown :: "(row \<Rightarrow> bool) \<Rightarrow> state \<Rightarrow> state \<Rightarrow> bool" where
  "grown P s s' = (\<exists>new. posts s' = posts s @ new \<and> list_all P new)"

text \<open>What is known of a row by the loop that inserts it.\<close>

definition postRow :: "row \<Rightarrow> bool" where
  "postRow r = (r_source r = ''reddit'' \<and> r_body r \<noteq> SText [] \<and> r_body r \<noteq> SInt 0)"

definition commentRow :: "row \<Rightarrow> bool" where
  "commentRow r =
     (r_source r = ''reddit_comment'' \<and> r_body r \<noteq> SNull \<and> r_body r \<noteq> SText [] \<and>
      r_body r \<noteq> SInt 0 \<and> r_body r \<noteq> SText ''[deleted]'' \<and>
      r_body r \<noteq> SText ''[removed]'')"

definition xRow :: "row \<Rightarrow> bool" where
  "xRow r = (r_source r = ''x'')"

definition redditRow :: "row \<Rightarrow> bool" where
  "redditRow r = (postRow r \<or> commentRow r)"

definition cycleRow :: "row \<Rightarrow> bool" where
  "cycleRow r = (postRow r \<or> commentRow r \<or> xRow r)"

text \<open>
  The requests of a cycle: the primary subreddit's \<open>/new\<close>, the \<open>i\<close>-th search, the
  comments listing and the search on X, with the response to each, whether the cycle
  makes the request, and the array its loop runs over.
\<close>

datatype path = New | Search nat | Comments | Tweets

fun pathResp :: "world \<Rightarrow> path \<Rightarrow> response" where
  "pathResp w New = newResp w"
| "pathResp w (Search i) = searchResp w i"
| "pathResp w Comments = commentsResp w"
| "pathResp w Tweets = xResp w"

fun attempted :: "world \<Rightarrow> path \<Rightarrow> bool" where
  "attempted w (Search i) = (i < length (searchSubs w))"
| "attempted w Tweets = tokenSet w"
| "attempted w pth = True"

fun listed :: "path \<Rightarrow> jsval \<Rightarrow> jsval" where
  "listed Tweets data = tweets data"
| "listed pth data = children data"

text \<open>
  An iteration of a loop that does not throw: the object is built and every parameter
  can be bound; in the comments loop, the child may also be passed over.
\<close>

definition postOk :: "world \<Rightarrow> jsval \<Rightarrow> bool" where
  "postOk w child =
     (case redditPost w child of Inl e \<Rightarrow> False | Inr p \<Rightarrow> paramsBindable p)"

definition commentOk :: "world \<Rightarrow> jsval \<Rightarrow> bool" where
  "commentOk w child =
     (\<not> nullish child \<and>
      (getProp child ''kind'' \<noteq> JStr ''t1'' \<or>
       (\<not> nullish (getProp child ''data'') \<and>
        (skipped (getProp (getProp child ''data'') ''body'') \<or>
         (case redditComment w (getProp child ''data'') of
            Inl e \<Rightarrow> False | Inr p \<Rightarrow> paramsBindable p)))))"

definition tweetOk :: "world \<Rightarrow> jsval \<Rightarrow> bool" where
  "tweetOk w tweet =
     (case xPost w tweet of Inl e \<Rightarrow> False | Inr p \<Rightarrow> paramsBindable p)"

fun itemOk :: "world \<Rightarrow> path \<Rightarrow> jsval \<Rightarrow> bool" where
  "itemOk w Comments child = commentOk w child"
| "itemOk w Tweets tweet = tweetOk w tweet"
| "itemOk w pth child = postOk w child"

text \<open>A child the comments loop does not pass over; the other loops pass over none.\<close>

definition commentKept :: "jsval \<Rightarrow> bool" where
  "commentKept child =
     (getProp child ''kind'' = JStr ''t1'' \<and>
      \<not> skipped (getProp (getProp child ''data'') ''body''))"

fun itemKept :: "path \<Rightarrow> jsval \<Rightarrow> bool" where
  "itemKept Comments child = commentKept child"
| "itemKept pth child = True"

text \<open>The \<open>id\<close> each loop builds, or the TypeError of its template literal.\<close>

definition prefixed :: "string \<Rightarrow> exn + string \<Rightarrow> exn + string" where
  "prefixed pre r = (case r of Inl e \<Rightarrow> Inl e | Inr native \<Rightarrow> Inr (pre @ native))"

definition postId :: "world \<Rightarrow> jsval \<Rightarrow> exn + string" where
  "postId w child =
     prefixed ''reddit_'' (toStr (numberText w) (getProp (getProp child ''data'') ''id''))"

definition commentId :: "world \<Rightarrow> jsval \<Rightarrow> exn + string" where
  "commentId w child =
     prefixed ''reddit_comment_''
       (toStr (numberText w) (getProp (getProp child ''data'') ''id''))"

definition tweetId :: "world \<Rightarrow> jsval \<Rightarrow> exn + string" where
  "tweetId w tweet = prefixed ''x_'' (toStr (numberText w) (getProp tweet ''id''))"

fun itemId :: "world \<Rightarrow> path \<Rightarrow> jsval \<Rightarrow> exn + string" where
  "itemId w Comments child = commentId w child"
| "itemId w Tweets tweet = tweetId w tweet"
| "itemId w pth child = postId w child"

text \<open>
  The bodies the comments loop passes over, as they would be stored: no body, the empty
  string, and the two marks Reddit leaves in place of a comment.
\<close>

definition sentinelBody :: "sqlval \<Rightarrow> bool" where
  "sentinelBody b =
     (b = SNull \<or> b = SText [] \<or> b = SText ''[deleted]'' \<or> b = SText ''[removed]'')"

definition commentBodies :: "row list \<Rightarrow> sqlval list" where
  "commentBodies rows = map r_body (filter (\<lambda>r. r_source r = ''reddit_comment'') rows)"

definition noSentinelComment :: "row list \<Rightarrow> bool" where
  "noSentinelComment rows = list_all (\<lambda>b. \<not> sentinelBody b) (commentBodies rows)"

text \<open>The rest of the program writing the one warning of \<open>pollX\<close> and doing no more.\<close>

definition warnOnce :: others where
  "warnOnce k s = (if k = 0 then say XSkipping s else s)"

section \<open>Worked inputs\<close>

text \<open>A post and a comment of the same native id, a deleted comment, and a tweet.\<close>

definition exPostChild :: "string \<Rightarrow> jsval \<Rightarrow> jsval" where
  "exPostChild native selftext =
     JObj [(''kind'', JStr ''t3''),
           (''data'', JObj [(''id'', JStr native), (''title'', JStr ''Malecon at dusk''),
              (''selftext'', selftext), (''url'', JStr ''https://i.redd.it/m.jpg''),
              (''author'', JStr ''ana''), (''score'', JNum 12),
              (''subreddit'', JStr ''mexico''),
              (''permalink'', JStr ''/r/mexico/comments/1abc/''),
              (''created_utc'', JNum 1714564800)])]"

definition exCommentChild :: "string \<Rightarrow> jsval \<Rightarrow> jsval" where
  "exCommentChild native b =
     JObj [(''kind'', JStr ''t1''),
           (''data'', JObj [(''id'', JStr native), (''body'', b),
              (''author'', JStr ''luis''), (''score'', JNum 3),
              (''subreddit'', JStr ''puertovallarta''),
              (''permalink'', JStr ''/r/puertovallarta/comments/1abc/c/''),
              (''link_id'', JStr ''t3_1abc''), (''link_title'', JStr ''Malecon at dusk''),
              (''created_utc'', JNum 1714564800)])]"

definition exTweet :: jsval where
  "exTweet =
     JObj [(''id'', JStr ''1785''), (''text'', JStr ''Sunset in PV''),
           (''author_id'', JStr ''42''), (''created_at'', JStr ''2024-05-01T12:00:00.000Z'')]"

definition exListing :: "jsval list \<Rightarrow> jsval" where
  "exListing cs = JObj [(''kind'', JStr ''Listing''), (''data'', JObj [(''children'', JArr cs)])]"

text \<open>
  A cycle in which the primary listing cannot be fetched, the first search answers 503,
  the second search, the comments listing and X answer 200, X before the searches do.
\<close>

definition exWorld :: world where
  "exWorld =
     \<lparr>X_BEARER_TOKEN = Some ''token'',
      REDDIT_SUBREDDITS = [''puertovallarta'', ''mexico'', ''travel''],
      newResp = FetchFailed,
      searchResp = (\<lambda>i. if i = 0 then Response 503 NotJson
                         else Response 200 (Json (exListing [exPostChild ''1abc'' (JStr [])]))),
      commentsResp =
        Response 200 (Json (exListing [exCommentChild ''0'' (JStr ''[deleted]''),
                                       exCommentChild ''1abc'' (JStr ''Agreed'')])),
      xResp = Response 200 (Json (JObj [(''data'', JArr [exTweet])])),
      xTurn = 1,
      clock = (\<lambda>n. ''2024-05-01 12:05:00''),
      numberText = showInt,
      isoOfSeconds =
        (\<lambda>v. if v = JNum 1714564800 then Inr ''2024-05-01T12:00:00.000Z''
              else Inl RangeError),
      isoOfDate =
        (\<lambda>v. if v = JStr ''2024-05-01T12:00:00.000Z''
              then Inr ''2024-05-01T12:00:00.000Z'' else Inl RangeError),
      stringify = (\<lambda>v. ''{}'')\<rparr>"

text \<open>A cycle in which every request fails and no token is set.\<close>

definition exDown :: world where
  "exDown =
     exWorld\<lparr>X_BEARER_TOKEN := None, searchResp := (\<lambda>i. FetchFailed),
       commentsResp := FetchFailed, xResp := FetchFailed\<rparr>"

definition exItem :: "string \<Rightarrow> item" where
  "exItem i =
     \<lparr>r_id = i, r_source = ''reddit'', r_title = SText ''Malecon at dusk'',
      r_body = SNull, r_url = SText ''https://i.redd.it/m.jpg'', r_author = SText ''ana'',
      r_score = SInt 12, r_subreddit = SText ''mexico'',
      r_permalink = SText ''https://www.reddit.com/r/mexico/comments/1abc/'',
      r_metrics = SNull, r_created_at = ''2024-05-01T12:00:00.000Z''\<rparr>"

definition exState :: "row list \<Rightarrow> state" where
  "exState rows = \<lparr>posts = rows, stmts = length rows, console = []\<rparr>"

section \<open>Properties of the table and the queries\<close>

lemma length_insertDesc: "length (insertDesc r xs) = Suc (length xs)"
  by (induction xs) auto

lemma set_insertDesc: "set (insertDesc r xs) = insert r (set xs)"
  by (induction xs) auto

lemma descending_insertDesc: "descending xs \<Longrightarrow> descending (insertDesc r xs)"
proof (induction xs)
  case Nil
  then show ?case by simp
next
  case (Cons x xs)
  show ?case
  proof (cases "r_created_at r < r_created_at x")
    case True
    have tl: "descending (insertDesc r xs)"
      using Cons by (cases xs) auto
    show ?thesis
    proof (cases xs)
      case Nil
      with True show ?thesis by simp
    next
      case (Cons y ys)
      with True tl Cons.prems show ?thesis by auto
    qed
  next
    case False
    with Cons.prems show ?thesis by simp
  qed
qed

lemma length_orderBy: "length (orderByCreatedAtDesc rows) = length rows"
  unfolding orderByCreatedAtDesc_def by (induction rows) (auto simp: length_insertDesc)

lemma set_orderBy: "set (orderByCreatedAtDesc rows) = set rows"
  unfolding orderByCreatedAtDesc_def by (induction rows) (auto simp: set_insertDesc)

lemma descending_orderBy: "descending (orderByCreatedAtDesc rows)"
  unfolding orderByCreatedAtDesc_def by (induction rows) (auto simp: descending_insertDesc)

lemma descending_tl: "descending (x # xs) \<Longrightarrow> descending xs"
  by (cases xs) auto

lemma descending_take: "descending xs \<Longrightarrow> descending (take n xs)"
proof (induction xs arbitrary: n)
  case Nil
  then show ?case by simp
next
  case (Cons x xs)
  show ?case
  proof (cases n)
    case 0
    then show ?thesis by simp
  next
    case (Suc m)
    have ih: "descending (take m xs)" using Cons descending_tl by blast
    show ?thesis
    proof (cases xs)
      case Nil
      with Suc show ?thesis by simp
    next
      case (Cons y ys)
      with Suc ih \<open>descending (x # xs)\<close> show ?thesis by (cases m) auto
    qed
  qed
qed

lemma insertPost_distinct:
  assumes "distinct (map r_id rows)" and "insertPost now x rows = (c, rows')"
  shows "distinct (map r_id rows')"
  using assms by (auto simp: insertPost_def ids_def stored_def split: if_splits)

lemma insertPost_id:
  assumes "insertPost now x rows = (c, rows')"
  shows "r_id x \<in> ids rows'"
  using assms by (auto simp: insertPost_def ids_def stored_def split: if_splits)

lemma distinct_one_row:
  assumes "distinct (map r_id rows)" and "i \<in> ids rows"
  shows "length (filter (\<lambda>r. r_id r = i) rows) = 1"
  using assms
proof (induction rows)
  case Nil
  then show ?case by (simp add: ids_def)
next
  case (Cons r rows)
  show ?case
  proof (cases "r_id r = i")
    case True
    have "r_id r \<notin> r_id ` set rows" using Cons.prems(1) by simp
    then have "\<And>x. x \<in> set rows \<Longrightarrow> r_id x \<noteq> i"
      using True by (metis imageI)
    then have "filter (\<lambda>r. r_id r = i) rows = []"
      by (simp add: filter_empty_conv)
    with True show ?thesis by simp
  next
    case False
    with Cons show ?thesis by (simp add: ids_def)
  qed
qed

section \<open>Properties of the pollers\<close>

lemma grown_refl: "grown P s s"
  by (simp add: grown_def)

lemma grown_trans: "grown P s s' \<Longrightarrow> grown P s' s'' \<Longrightarrow> grown P s s''"
  by (auto simp: grown_def)

lemma grown_say: "grown P s s' \<Longrightarrow> grown P s (say ev s')"
  by (simp add: grown_def say_def)

lemma grown_say_left: "grown P (say ev s) s' \<Longrightarrow> grown P s s'"
  by (simp add: grown_def say_def)

lemma grown_weaken: "(\<And>r. P r \<Longrightarrow> Q r) \<Longrightarrow> grown P s s' \<Longrightarrow> grown Q s s'"
  by (auto simp: grown_def list_all_iff)

lemma grown_ids: "grown P s s' \<Longrightarrow> ids (posts s) \<subseteq> ids (posts s')"
  by (auto simp: grown_def ids_def)

lemma run_cases:
  assumes "run w p s = Inr (c, s')"
  shows "paramsBindable p"
    and "console s' = console s"
    and "stmts s' = Suc (stmts s)"
    and "p_id p \<in> ids (posts s) \<Longrightarrow> c = 0 \<and> posts s' = posts s"
    and "p_id p \<notin> ids (posts s) \<Longrightarrow>
           c = 1 \<and> posts s' = posts s @ [stored (bindParams p) (clock w (stmts s))]"
  using assms
  by (auto simp: run_def insertPost_def bindParams_def split: if_splits)

lemma run_grown:
  assumes "run w p s = Inr (c, s')" and "\<And>now. P (stored (bindParams p) now)"
  shows "grown P s s'"
proof (cases "p_id p \<in> ids (posts s)")
  case True
  with run_cases(4) [OF assms(1)] show ?thesis by (simp add: grown_def)
next
  case False
  with run_cases(5) [OF assms(1)] assms(2) show ?thesis by (simp add: grown_def)
qed

lemma run_count:
  assumes "run w p s = Inr (c, s')"
  shows "length (posts s') = length (posts s) + (if c > 0 then 1 else 0)"
  using run_cases(4,5) [OF assms] by (cases "p_id p \<in> ids (posts s)") auto

lemma run_id:
  assumes "run w p s = Inr (c, s')"
  shows "p_id p \<in> ids (posts s')"
  using run_cases(4,5) [OF assms] by (cases "p_id p \<in> ids (posts s)") (auto simp: ids_def stored_def bindParams_def)

lemma run_bindable: "paramsBindable p \<Longrightarrow> \<exists>c s'. run w p s = Inr (c, s')"
  by (auto simp: run_def split: prod.splits)

lemma bindValue_orElse:
  "bindValue (orElse v JNull) \<noteq> SText [] \<and> bindValue (orElse v JNull) \<noteq> SInt 0"
  by (cases v) (auto simp: orElse_def)

lemma redditPost_row:
  assumes "redditPost w child = Inr p"
  shows "postRow (stored (bindParams p) now)"
  using assms bindValue_orElse
  by (auto simp: redditPost_def postRow_def stored_def bindParams_def Let_def
           split: if_splits sum.splits)

lemma redditPost_id:
  assumes "redditPost w child = Inr p"
  shows "postId w child = Inr (p_id p)"
  using assms
  by (auto simp: redditPost_def postId_def prefixed_def Let_def split: if_splits sum.splits)

lemma bindValue_kept:
  assumes "\<not> skipped v"
  shows "bindValue v \<noteq> SNull \<or> \<not> bindable v" "bindValue v \<noteq> SText []" "bindValue v \<noteq> SInt 0"
    "bindValue v \<noteq> SText ''[deleted]''" "bindValue v \<noteq> SText ''[removed]''"
  using assms by (cases v; auto simp: skipped_def)+

lemma redditComment_row:
  assumes "redditComment w c = Inr p" and "\<not> skipped (getProp c ''body'')" and "paramsBindable p"
  shows "commentRow (stored (bindParams p) now)"
proof -
  have b: "p_body p = getProp c ''body''" and src: "p_source p = ''reddit_comment''"
    using assms(1) by (auto simp: redditComment_def split: sum.splits)
  have "bindable (p_body p)" using assms(3) by (simp add: paramsBindable_def)
  with bindValue_kept [OF assms(2)] b src show ?thesis
    by (simp add: commentRow_def stored_def bindParams_def)
qed

lemma xPost_row:
  assumes "xPost w tweet = Inr p"
  shows "xRow (stored (bindParams p) now)"
  using assms
  by (auto simp: xPost_def xRow_def stored_def bindParams_def split: if_splits sum.splits)

lemma postsLoop_grown:
  "postsLoop w cs s n = (e, s', n') \<Longrightarrow> grown postRow s s'"
proof (induction cs arbitrary: s n)
  case Nil
  then show ?case by (simp add: grown_refl)
next
  case (Cons child rest)
  show ?case
  proof (cases "redditPost w child")
    case (Inl x)
    with Cons.prems show ?thesis by (simp add: grown_refl)
  next
    case (Inr p)
    show ?thesis
    proof (cases "run w p s")
      case (Inl x)
      with Inr Cons.prems show ?thesis by (simp add: grown_refl)
    next
      case r: (Inr cs1)
      obtain c s1 where cs1: "cs1 = (c, s1)" by (cases cs1)
      have g1: "grown postRow s s1"
        using run_grown [of w p s c s1 postRow] r cs1 redditPost_row [OF Inr] by simp
      have "postsLoop w rest s1 (if c > 0 then n + 1 else n) = (e, s', n')"
        using Cons.prems Inr r cs1 by simp
      from Cons.IH [OF this] g1 show ?thesis by (rule grown_trans [rotated])
    qed
  qed
qed

lemma postsLoop_count:
  "postsLoop w cs s n = (e, s', n') \<Longrightarrow> length (posts s') + n = length (posts s) + n'"
proof (induction cs arbitrary: s n)
  case Nil
  then show ?case by simp
next
  case (Cons child rest)
  show ?case
  proof (cases "redditPost w child")
    case (Inl x)
    with Cons.prems show ?thesis by simp
  next
    case (Inr p)
    show ?thesis
    proof (cases "run w p s")
      case (Inl x)
      with Inr Cons.prems show ?thesis by simp
    next
      case r: (Inr cs1)
      obtain c s1 where cs1: "cs1 = (c, s1)" by (cases cs1)
      have l1: "length (posts s1) = length (posts s) + (if c > 0 then 1 else 0)"
        using run_count r cs1 by simp
      have "postsLoop w rest s1 (if c > 0 then n + 1 else n) = (e, s', n')"
        using Cons.prems Inr r cs1 by simp
      from Cons.IH [OF this] l1 show ?thesis by (simp split: if_splits)
    qed
  qed
qed

lemma run_step_grown:
  assumes "run w p s = Inr (c, s1)" and "\<And>now. P (stored (bindParams p) now)"
    and "grown P s1 s'"
  shows "grown P s s'"
proof -
  have "grown P s s1" using assms(1,2) by (rule run_grown)
  then show ?thesis using assms(3) by (rule grown_trans)
qed

lemma run_step_count:
  assumes "run w p s = Inr (c, s1)"
    and "length (posts s') + (if c > 0 then n + 1 else n) = length (posts s1) + n'"
  shows "length (posts s') + n = length (posts s) + n'"
  using run_count [OF assms(1)] assms(2) by (simp split: if_splits)

lemma tweetsLoop_grown:
  "tweetsLoop w ts s n = (e, s', n') \<Longrightarrow> grown xRow s s'"
proof (induction ts arbitrary: s n)
  case Nil
  then show ?case by (simp add: grown_refl)
next
  case (Cons tweet rest)
  show ?case
  proof (cases "xPost w tweet")
    case (Inl x)
    with Cons.prems show ?thesis by (simp add: grown_refl)
  next
    case (Inr p)
    show ?thesis
    proof (cases "run w p s")
      case (Inl x)
      with Inr Cons.prems show ?thesis by (simp add: grown_refl)
    next
      case r: (Inr cs1)
      obtain c s1 where cs1: "cs1 = (c, s1)" by (cases cs1)
      have "tweetsLoop w rest s1 (if c > 0 then n + 1 else n) = (e, s', n')"
        using Cons.prems Inr r cs1 by simp
      then have "grown xRow s1 s'" by (rule Cons.IH)
      with r cs1 xPost_row [OF Inr] show ?thesis by (auto intro: run_step_grown)
    qed
  qed
qed

lemma tweetsLoop_count:
  "tweetsLoop w ts s n = (e, s', n') \<Longrightarrow> length (posts s') + n = length (posts s) + n'"
proof (induction ts arbitrary: s n)
  case Nil
  then show ?case by simp
next
  case (Cons tweet rest)
  show ?case
  proof (cases "xPost w tweet")
    case (Inl x)
    with Cons.prems show ?thesis by simp
  next
    case (Inr p)
    show ?thesis
    proof (cases "run w p s")
      case (Inl x)
      with Inr Cons.prems show ?thesis by simp
    next
      case r: (Inr cs1)
      obtain c s1 where cs1: "cs1 = (c, s1)" by (cases cs1)
      have "tweetsLoop w rest s1 (if c > 0 then n + 1 else n) = (e, s', n')"
        using Cons.prems Inr r cs1 by simp
      then have "length (posts s') + (if c > 0 then n + 1 else n) = length (posts s1) + n'"
        by (rule Cons.IH)
      with r cs1 show ?thesis by (auto intro: run_step_count)
    qed
  qed
qed

text \<open>The four ways an iteration of the comments loop goes.\<close>

lemma commentsLoop_Cons:
  assumes "commentsLoop w (child # rest) s n = (e, s', n')"
  shows "(\<exists>err. e = Some err \<and> s' = s \<and> n' = n)
   \<or> commentsLoop w rest s n = (e, s', n')
   \<or> (\<exists>p c s1. \<not> skipped (getProp (getProp child ''data'') ''body'') \<and>
         redditComment w (getProp child ''data'') = Inr p \<and> run w p s = Inr (c, s1) \<and>
         commentsLoop w rest s1 (if c > 0 then n + 1 else n) = (e, s', n'))"
proof (cases "redditComment w (getProp child ''data'')")
  case (Inl x)
  with assms show ?thesis by (auto simp: Let_def split: if_splits)
next
  case (Inr p)
  show ?thesis
  proof (cases "run w p s")
    case (Inl x)
    with Inr assms show ?thesis by (auto simp: Let_def split: if_splits)
  next
    case r: (Inr cs1)
    obtain c s1 where "cs1 = (c, s1)" by (cases cs1)
    with r Inr assms show ?thesis by (auto simp: Let_def split: if_splits)
  qed
qed

lemma commentsLoop_grown:
  "commentsLoop w cs s n = (e, s', n') \<Longrightarrow> grown commentRow s s'"
proof (induction cs arbitrary: s n)
  case Nil
  then show ?case by (simp add: grown_refl)
next
  case (Cons child rest)
  from commentsLoop_Cons [OF Cons.prems] show ?case
  proof (elim disjE exE conjE)
    fix err assume "s' = s"
    then show ?thesis by (simp add: grown_refl)
  next
    assume "commentsLoop w rest s n = (e, s', n')"
    then show ?thesis by (rule Cons.IH)
  next
    fix p c s1
    assume k: "\<not> skipped (getProp (getProp child ''data'') ''body'')"
      and rc: "redditComment w (getProp child ''data'') = Inr p"
      and r: "run w p s = Inr (c, s1)"
      and l: "commentsLoop w rest s1 (if c > 0 then n + 1 else n) = (e, s', n')"
    have "paramsBindable p" using r by (rule run_cases(1))
    with rc k have "\<And>now. commentRow (stored (bindParams p) now)"
      by (rule redditComment_row)
    moreover have "grown commentRow s1 s'" using l by (rule Cons.IH)
    ultimately show ?thesis using r by (auto intro: run_step_grown)
  qed
qed

lemma commentsLoop_count:
  "commentsLoop w cs s n = (e, s', n') \<Longrightarrow> length (posts s') + n = length (posts s) + n'"
proof (induction cs arbitrary: s n)
  case Nil
  then show ?case by simp
next
  case (Cons child rest)
  from commentsLoop_Cons [OF Cons.prems] show ?case
  proof (elim disjE exE conjE)
    fix err assume "s' = s" "n' = n"
    then show ?thesis by simp
  next
    assume "commentsLoop w rest s n = (e, s', n')"
    then show ?thesis by (rule Cons.IH)
  next
    fix p c s1
    assume r: "run w p s = Inr (c, s1)"
      and l: "commentsLoop w rest s1 (if c > 0 then n + 1 else n) = (e, s', n')"
    have "length (posts s') + (if c > 0 then n + 1 else n) = length (posts s1) + n'"
      using l by (rule Cons.IH)
    with r show ?thesis by (rule run_step_count)
  qed
qed

lemma insertListing_grown:
  "insertListing w data s n = (e, s', n') \<Longrightarrow> grown postRow s s'"
  by (auto simp: insertListing_def grown_refl split: sum.splits intro: postsLoop_grown)

lemma pollPrimary_grown:
  assumes "pollPrimary w s n = (s', n')"
  shows "grown postRow s s'"
proof (cases "newResp w")
  case FetchFailed
  with assms show ?thesis by (auto simp: pollPrimary_def intro: grown_say grown_refl)
next
  case (Response status b)
  show ?thesis
  proof (cases "res_ok status")
    case False
    with Response assms show ?thesis by (auto simp: pollPrimary_def intro: grown_refl)
  next
    case True
    show ?thesis
    proof (cases "res_json b")
      case (Inl x)
      with True Response assms show ?thesis
        by (auto simp: pollPrimary_def intro: grown_say grown_refl)
    next
      case (Inr data)
      obtain e s1 n1 where l: "insertListing w data s n = (e, s1, n1)"
        by (cases "insertListing w data s n") auto
      then have "grown postRow s s1" by (rule insertListing_grown)
      with l Inr True Response assms show ?thesis
        by (cases e) (auto simp: pollPrimary_def intro: grown_say)
    qed
  qed
qed

lemma searchSub_grown:
  assumes "searchSub w i sub s n = (s', n')"
  shows "grown postRow s s'"
proof (cases "searchResp w i")
  case FetchFailed
  with assms show ?thesis by (auto simp: searchSub_def intro: grown_say grown_refl)
next
  case (Response status b)
  show ?thesis
  proof (cases "res_ok status")
    case False
    with Response assms show ?thesis by (auto simp: searchSub_def intro: grown_say grown_refl)
  next
    case True
    show ?thesis
    proof (cases "res_json b")
      case (Inl x)
      with True Response assms show ?thesis
        by (auto simp: searchSub_def intro: grown_say grown_refl)
    next
      case (Inr data)
      obtain e s1 n1 where l: "insertListing w data s n = (e, s1, n1)"
        by (cases "insertListing w data s n") auto
      then have "grown postRow s s1" by (rule insertListing_grown)
      with l Inr True Response assms show ?thesis
        by (cases e) (auto simp: searchSub_def intro: grown_say)
    qed
  qed
qed

lemma searchLoop_grown:
  assumes "\<And>k s. grown P s (others k s)" and "\<And>r. postRow r \<Longrightarrow> P r"
    and "searchLoop others w i subs s n = (s', n')"
  shows "grown P s s'"
  using assms(3)
proof (induction subs arbitrary: i s n)
  case Nil
  then show ?case by (simp add: grown_refl)
next
  case (Cons sub rest)
  obtain s1 n1 where one: "searchSub w i sub (others (Suc i) s) n = (s1, n1)"
    by (cases "searchSub w i sub (others (Suc i) s) n")
  with Cons.prems have "searchLoop others w (Suc i) rest s1 n1 = (s', n')" by simp
  then have r: "grown P s1 s'" by (rule Cons.IH)
  have "grown postRow (others (Suc i) s) s1" using one by (rule searchSub_grown)
  then have "grown P (others (Suc i) s) s1" by (rule grown_weaken [rotated]) (rule assms(2))
  with assms(1) have "grown P s s1" by (rule grown_trans)
  then show ?case using r by (rule grown_trans)
qed

lemma pollSubredditComments_grown: "grown commentRow s (pollSubredditComments w s)"
proof (cases "commentsResp w")
  case FetchFailed
  then show ?thesis by (auto simp: pollSubredditComments_def intro: grown_say grown_refl)
next
  case (Response status b)
  show ?thesis
  proof (cases "res_ok status")
    case False
    with Response show ?thesis
      by (auto simp: pollSubredditComments_def intro: grown_say grown_refl)
  next
    case True
    show ?thesis
    proof (cases "res_json b")
      case (Inl x)
      with True Response show ?thesis
        by (auto simp: pollSubredditComments_def intro: grown_say grown_refl)
    next
      case (Inr data)
      show ?thesis
      proof (cases "iterate (children data)")
        case (Inl x)
        with Inr True Response show ?thesis
          by (auto simp: pollSubredditComments_def intro: grown_say grown_refl)
      next
        case cs: (Inr cs)
        obtain e s1 n1 where l: "commentsLoop w cs s 0 = (e, s1, n1)"
          by (cases "commentsLoop w cs s 0") auto
        then have "grown commentRow s s1" by (rule commentsLoop_grown)
        with l cs Inr True Response show ?thesis
          by (cases e) (auto simp: pollSubredditComments_def intro: grown_say)
      qed
    qed
  qed
qed

lemma pollReddit_grown:
  assumes hook: "\<And>k s. grown P s (others k s)" and sub: "\<And>r. redditRow r \<Longrightarrow> P r"
  shows "grown P s (pollReddit others w s)"
proof -
  have post: "\<And>r. postRow r \<Longrightarrow> P r" by (rule sub) (simp add: redditRow_def)
  have comment: "\<And>r. commentRow r \<Longrightarrow> P r" by (rule sub) (simp add: redditRow_def)
  let ?s0 = "others 0 (say RedditPolling s)"
  obtain s1 n1 where p: "pollPrimary w ?s0 0 = (s1, n1)"
    by (cases "pollPrimary w ?s0 0")
  obtain s2 n2 where l: "searchLoop others w 0 (searchSubs w) s1 n1 = (s2, n2)"
    by (cases "searchLoop others w 0 (searchSubs w) s1 n1")
  let ?s3 = "others (Suc (length (searchSubs w))) (say (RedditDone n2) s2)"
  have eq: "pollReddit others w s = pollSubredditComments w ?s3"
    using p l by (simp add: pollReddit_def)
  have "grown P (say RedditPolling s) ?s0" by (rule hook)
  then have g0: "grown P s ?s0" by (rule grown_say_left)
  have "grown postRow ?s0 s1" using p by (rule pollPrimary_grown)
  then have g1: "grown P ?s0 s1" by (rule grown_weaken [rotated]) (rule post)
  have g2: "grown P s1 s2" using hook post l by (rule searchLoop_grown)
  have "grown P (say (RedditDone n2) s2) ?s3" by (rule hook)
  then have g3: "grown P s2 ?s3" by (rule grown_say_left)
  have "grown commentRow ?s3 (pollReddit others w s)"
    unfolding eq by (rule pollSubredditComments_grown)
  then have g4: "grown P ?s3 (pollReddit others w s)"
    by (rule grown_weaken [rotated]) (rule comment)
  from g0 g1 have "grown P s s1" by (rule grown_trans)
  then have "grown P s s2" using g2 by (rule grown_trans)
  then have "grown P s ?s3" using g3 by (rule grown_trans)
  then show ?thesis using g4 by (rule grown_trans)
qed

lemma pollX_start_posts: "posts (pollX_start w s) = posts s"
  by (simp add: pollX_start_def say_def)

lemma pollX_start_grown: "grown P s (pollX_start w s)"
  by (simp add: grown_def pollX_start_posts)

lemma pollX_response_grown: "grown xRow s (pollX_response w s)"
proof (cases "tokenSet w")
  case False
  then show ?thesis by (simp add: pollX_response_def grown_refl)
next
  case tok: True
  show ?thesis
  proof (cases "xResp w")
    case FetchFailed
    with tok show ?thesis by (auto simp: pollX_response_def intro: grown_say grown_refl)
  next
    case (Response status b)
    show ?thesis
    proof (cases "res_ok status")
      case False
      with tok Response show ?thesis
        by (auto simp: pollX_response_def split: sum.splits intro: grown_say grown_refl)
    next
      case True
      show ?thesis
      proof (cases "res_json b")
        case (Inl x)
        with tok True Response show ?thesis
          by (auto simp: pollX_response_def intro: grown_say grown_refl)
      next
        case (Inr data)
        show ?thesis
        proof (cases "iterate (tweets data)")
          case (Inl x)
          with tok Inr True Response show ?thesis
            by (auto simp: pollX_response_def intro: grown_say grown_refl)
        next
          case ts: (Inr ts)
          obtain e s1 n1 where l: "tweetsLoop w ts s 0 = (e, s1, n1)"
            by (cases "tweetsLoop w ts s 0") auto
          then have "grown xRow s s1" by (rule tweetsLoop_grown)
          with l ts tok Inr True Response show ?thesis
            by (cases e) (auto simp: pollX_response_def intro: grown_say)
        qed
      qed
    qed
  qed
qed

lemma xTurns_grown: "grown xRow s (xTurns w k s)"
proof -
  let ?s0 = "if k = 0 then pollX_start w s else s"
  have a: "grown xRow s ?s0" by (simp add: pollX_start_grown grown_refl)
  have "grown xRow ?s0 (pollX_response w ?s0)" by (rule pollX_response_grown)
  with a have "grown xRow s (pollX_response w ?s0)" by (rule grown_trans)
  with a show ?thesis by (simp add: xTurns_def Let_def)
qed

lemma xTurns_cycle: "grown cycleRow s (xTurns w k s)"
  using xTurns_grown by (rule grown_weaken [rotated]) (simp add: cycleRow_def)

lemma pollAll_grown: "grown cycleRow s (pollAll w s)"
proof -
  have a: "grown cycleRow s (pollReddit (xTurns w) w s)"
    by (rule pollReddit_grown) (auto simp: xTurns_cycle redditRow_def cycleRow_def)
  have "grown xRow (pollReddit (xTurns w) w s) (pollX_response w (pollReddit (xTurns w) w s))"
    by (rule pollX_response_grown)
  then have "grown cycleRow (pollReddit (xTurns w) w s)
      (pollX_response w (pollReddit (xTurns w) w s))"
    by (rule grown_weaken [rotated]) (simp add: cycleRow_def)
  with a have "grown cycleRow s (pollX_response w (pollReddit (xTurns w) w s))"
    by (rule grown_trans)
  with a show ?thesis by (simp add: pollAll_def Let_def)
qed

lemma grown_id: "grown P s s' \<Longrightarrow> i \<in> ids (posts s) \<Longrightarrow> i \<in> ids (posts s')"
  using grown_ids by blast

lemma postsLoop_inserts:
  assumes "list_all (postOk w) before" and "postOk w child"
    and "postsLoop w (before @ child # after) s n = (e, s', n')"
    and key: "postId w child = Inr key"
  shows "key \<in> ids (posts s')"
  using assms(1,2,3)
proof (induction before arbitrary: s n)
  case Nil
  from Nil(2) obtain p where p: "redditPost w child = Inr p" and b: "paramsBindable p"
    by (auto simp: postOk_def split: sum.splits)
  from b obtain c s1 where r: "run w p s = Inr (c, s1)" using run_bindable by blast
  have "postsLoop w after s1 (if c > 0 then n + 1 else n) = (e, s', n')"
    using Nil(3) p r by simp
  then have "grown postRow s1 s'" by (rule postsLoop_grown)
  moreover have "p_id p \<in> ids (posts s1)" using r by (rule run_id)
  ultimately have "p_id p \<in> ids (posts s')" by (rule grown_id)
  then show ?case using redditPost_id [OF p] key by simp
next
  case (Cons x before)
  from Cons.prems(1) obtain p where p: "redditPost w x = Inr p" and b: "paramsBindable p"
    by (auto simp: postOk_def split: sum.splits)
  from b obtain c s1 where r: "run w p s = Inr (c, s1)" using run_bindable by blast
  have "postsLoop w (before @ child # after) s1 (if c > 0 then n + 1 else n) = (e, s', n')"
    using Cons.prems(3) p r by simp
  with Cons.IH Cons.prems(1,2) show ?case by simp
qed

lemma xPost_id:
  assumes "xPost w tweet = Inr p"
  shows "tweetId w tweet = Inr (p_id p)"
  using assms
  by (auto simp: xPost_def tweetId_def prefixed_def split: if_splits sum.splits)

lemma redditComment_native:
  assumes "redditComment w c = Inr p"
  shows "prefixed ''reddit_comment_'' (toStr (numberText w) (getProp c ''id'')) = Inr (p_id p)"
  using assms by (auto simp: redditComment_def prefixed_def split: sum.splits)

lemma redditComment_id:
  assumes "redditComment w (getProp child ''data'') = Inr p"
  shows "commentId w child = Inr (p_id p)"
  using redditComment_native [OF assms] by (simp add: commentId_def)

lemma tweetsLoop_inserts:
  assumes "list_all (tweetOk w) before" and "tweetOk w tweet"
    and "tweetsLoop w (before @ tweet # after) s n = (e, s', n')"
    and key: "tweetId w tweet = Inr key"
  shows "key \<in> ids (posts s')"
  using assms(1,2,3)
proof (induction before arbitrary: s n)
  case Nil
  from Nil(2) obtain p where p: "xPost w tweet = Inr p" and b: "paramsBindable p"
    by (auto simp: tweetOk_def split: sum.splits)
  from b obtain c s1 where r: "run w p s = Inr (c, s1)" using run_bindable by blast
  have "tweetsLoop w after s1 (if c > 0 then n + 1 else n) = (e, s', n')"
    using Nil(3) p r by simp
  then have "grown xRow s1 s'" by (rule tweetsLoop_grown)
  moreover have "p_id p \<in> ids (posts s1)" using r by (rule run_id)
  ultimately have "p_id p \<in> ids (posts s')" by (rule grown_id)
  then show ?case using xPost_id [OF p] key by simp
next
  case (Cons x before)
  from Cons.prems(1) obtain p where p: "xPost w x = Inr p" and b: "paramsBindable p"
    by (auto simp: tweetOk_def split: sum.splits)
  from b obtain c s1 where r: "run w p s = Inr (c, s1)" using run_bindable by blast
  have "tweetsLoop w (before @ tweet # after) s1 (if c > 0 then n + 1 else n) = (e, s', n')"
    using Cons.prems(3) p r by simp
  with Cons.IH Cons.prems(1,2) show ?case by simp
qed

text \<open>An iteration of the comments loop that does not throw: it skips the child or inserts it.\<close>

lemma commentsLoop_ok_step:
  assumes "commentOk w child"
  shows "\<exists>s1 n1. commentsLoop w (child # rest) s n = commentsLoop w rest s1 n1 \<and>
           grown commentRow s s1 \<and>
           (commentKept child \<longrightarrow> commentId w child = Inr key \<longrightarrow> key \<in> ids (posts s1))"
proof (cases "commentKept child")
  case False
  with assms have "commentsLoop w (child # rest) s n = commentsLoop w rest s n"
    by (auto simp: commentOk_def commentKept_def Let_def)
  with False show ?thesis using grown_refl by blast
next
  case True
  with assms obtain p where p: "redditComment w (getProp child ''data'') = Inr p"
    and b: "paramsBindable p"
    by (auto simp: commentOk_def commentKept_def split: sum.splits)
  from b obtain c s1 where r: "run w p s = Inr (c, s1)" using run_bindable by blast
  have "commentsLoop w (child # rest) s n = commentsLoop w rest s1 (if c > 0 then n + 1 else n)"
    using assms True p r by (auto simp: commentOk_def commentKept_def Let_def)
  moreover have "grown commentRow s s1"
    using r redditComment_row [OF p _ b] True
    by (auto simp: commentKept_def intro: run_grown)
  moreover have "p_id p \<in> ids (posts s1)" using r by (rule run_id)
  ultimately show ?thesis using redditComment_id [OF p] by auto
qed

lemma commentsLoop_inserts:
  assumes "list_all (commentOk w) before" and "commentOk w child" and "commentKept child"
    and "commentsLoop w (before @ child # after) s n = (e, s', n')"
    and key: "commentId w child = Inr key"
  shows "key \<in> ids (posts s')"
  using assms(1,2,3,4)
proof (induction before arbitrary: s n)
  case Nil
  from commentsLoop_ok_step [OF Nil(2), of after s n key] Nil(3) key obtain s1 n1
    where "commentsLoop w (child # after) s n = commentsLoop w after s1 n1"
      and i: "key \<in> ids (posts s1)"
    by blast
  with Nil(4) have "commentsLoop w after s1 n1 = (e, s', n')" by simp
  then have "grown commentRow s1 s'" by (rule commentsLoop_grown)
  then show ?case using i by (rule grown_id)
next
  case (Cons x before)
  from Cons.prems(1) have "commentOk w x" by simp
  from commentsLoop_ok_step [OF this, of "before @ child # after" s n key] obtain s1 n1
    where "commentsLoop w (x # before @ child # after) s n =
             commentsLoop w (before @ child # after) s1 n1"
    by blast
  with Cons.prems(4) have "commentsLoop w (before @ child # after) s1 n1 = (e, s', n')" by simp
  with Cons.IH Cons.prems(1,2,3) show ?case by simp
qed

lemma prefix_ids_neq: "''reddit_'' @ n \<noteq> ''reddit_comment_'' @ n"
proof
  assume "''reddit_'' @ n = ''reddit_comment_'' @ n"
  then have "length (''reddit_'' @ n) = length (''reddit_comment_'' @ n)" by (rule arg_cong)
  then show False by simp
qed

text \<open>
  An id that is an object with a property \<open>toString\<close> of its own has no text: the
  template literal throws and the loop ends at that child, whatever comes after it. The
  text of a numeric id beyond \<open>2 ^ 53\<close> is the one JavaScript prints for it.
\<close>

lemma postsLoop_toString_id:
  "postsLoop w (JObj [(''data'', JObj [(''id'', JObj [(''toString'', JNum 1)])])] # rest) s n =
     (Some TypeError, s, n)"
  by (simp add: redditPost_def)

lemma postId_big_number:
  "postId w (JObj [(''data'', JObj [(''id'', JNum 9007199254740993)])]) =
     Inr (''reddit_'' @ numberText w 9007199254740993)"
  by (simp add: postId_def prefixed_def numberStr_def)


lemma insertListing_inserts:
  assumes "iterate (children data) = Inr (before @ child # after)"
    and "list_all (postOk w) before" and "postOk w child"
    and "insertListing w data s n = (e, s', n')"
    and key: "postId w child = Inr key"
  shows "key \<in> ids (posts s')"
proof -
  have "postsLoop w (before @ child # after) s n = (e, s', n')"
    using assms(1,4) by (simp add: insertListing_def)
  with assms(2,3) show ?thesis using key by (rule postsLoop_inserts)
qed

lemma pollPrimary_inserts:
  assumes "newResp w = Response st (Json data)" and "res_ok st"
    and "iterate (children data) = Inr (before @ child # after)"
    and "list_all (postOk w) before" and "postOk w child"
    and "pollPrimary w s n = (s', n')"
    and key: "postId w child = Inr key"
  shows "key \<in> ids (posts s')"
proof -
  obtain e s1 n1 where l: "insertListing w data s n = (e, s1, n1)"
    by (cases "insertListing w data s n") auto
  have i: "key \<in> ids (posts s1)"
    using assms(3,4,5) l key by (rule insertListing_inserts)
  have "posts s' = posts s1"
    using assms(1,2,6) l by (cases e) (auto simp: pollPrimary_def say_def)
  with i show ?thesis by simp
qed

lemma searchSub_inserts:
  assumes "searchResp w i = Response st (Json data)" and "res_ok st"
    and "iterate (children data) = Inr (before @ child # after)"
    and "list_all (postOk w) before" and "postOk w child"
    and "searchSub w i sub s n = (s', n')"
    and key: "postId w child = Inr key"
  shows "key \<in> ids (posts s')"
proof -
  obtain e s1 n1 where l: "insertListing w data s n = (e, s1, n1)"
    by (cases "insertListing w data s n") auto
  have i: "key \<in> ids (posts s1)"
    using assms(3,4,5) l key by (rule insertListing_inserts)
  have "posts s' = posts s1"
    using assms(1,2,6) l by (cases e) (auto simp: searchSub_def say_def)
  with i show ?thesis by simp
qed

lemma searchLoop_inserts:
  assumes hook: "\<And>k s. grown P s (others k s)" and post: "\<And>r. postRow r \<Longrightarrow> P r"
    and "k < length subs"
    and "searchResp w (i + k) = Response st (Json data)" and "res_ok st"
    and "iterate (children data) = Inr (before @ child # after)"
    and "list_all (postOk w) before" and "postOk w child"
    and "searchLoop others w i subs s n = (s', n')"
    and key: "postId w child = Inr key"
  shows "key \<in> ids (posts s')"
  using assms(3,4,9)
proof (induction subs arbitrary: i k s n)
  case Nil
  then show ?case by simp
next
  case (Cons sub rest)
  obtain s1 n1 where one: "searchSub w i sub (others (Suc i) s) n = (s1, n1)"
    by (cases "searchSub w i sub (others (Suc i) s) n")
  with Cons.prems(3) have loop: "searchLoop others w (Suc i) rest s1 n1 = (s', n')" by simp
  show ?case
  proof (cases k)
    case 0
    with Cons.prems(2) have "searchResp w i = Response st (Json data)" by simp
    then have "key \<in> ids (posts s1)"
      using assms(5,6,7,8) one key by (rule searchSub_inserts)
    with searchLoop_grown [OF hook post loop] show ?thesis by (rule grown_id)
  next
    case (Suc j)
    with Cons.prems(1,2) have "j < length rest"
      and "searchResp w (Suc i + j) = Response st (Json data)" by simp_all
    then show ?thesis using loop by (rule Cons.IH)
  qed
qed

text \<open>What is in the table after wait \<open>k\<close> of the search loop is there when the loop ends.\<close>

lemma searchLoop_during:
  assumes hook: "\<And>k s. grown P s (others k s)" and post: "\<And>r. postRow r \<Longrightarrow> P r"
    and "j < length subs"
    and "\<And>s. x \<in> ids (posts (others (Suc (i + j)) s))"
    and "searchLoop others w i subs s n = (s', n')"
  shows "x \<in> ids (posts s')"
  using assms(3,4,5)
proof (induction subs arbitrary: i j s n)
  case Nil
  then show ?case by simp
next
  case (Cons sub rest)
  obtain s1 n1 where one: "searchSub w i sub (others (Suc i) s) n = (s1, n1)"
    by (cases "searchSub w i sub (others (Suc i) s) n")
  with Cons.prems(3) have loop: "searchLoop others w (Suc i) rest s1 n1 = (s', n')" by simp
  show ?case
  proof (cases j)
    case 0
    with Cons.prems(2) [of s] have "x \<in> ids (posts (others (Suc i) s))" by simp
    with searchSub_grown [OF one] have "x \<in> ids (posts s1)" by (rule grown_id)
    with searchLoop_grown [OF hook post loop] show ?thesis by (rule grown_id)
  next
    case (Suc m)
    with Cons.prems(1) have a: "m < length rest" by simp
    have b: "\<And>s. x \<in> ids (posts (others (Suc (Suc i + m)) s))"
      using Cons.prems(2) Suc by simp
    from a b loop show ?thesis by (rule Cons.IH)
  qed
qed

lemma pollSubredditComments_inserts:
  assumes "commentsResp w = Response st (Json data)" and "res_ok st"
    and "iterate (children data) = Inr (before @ child # after)"
    and "list_all (commentOk w) before" and "commentOk w child" and "commentKept child"
    and key: "commentId w child = Inr key"
  shows "key \<in> ids (posts (pollSubredditComments w s))"
proof -
  obtain e s1 n1 where l: "commentsLoop w (before @ child # after) s 0 = (e, s1, n1)"
    by (cases "commentsLoop w (before @ child # after) s 0") auto
  have i: "key \<in> ids (posts s1)"
    using assms(4,5,6) l key by (rule commentsLoop_inserts)
  have "posts (pollSubredditComments w s) = posts s1"
    using assms(1,2,3) l by (cases e) (auto simp: pollSubredditComments_def say_def)
  with i show ?thesis by simp
qed

lemma pollX_response_inserts:
  assumes "tokenSet w" and "xResp w = Response st (Json data)" and "res_ok st"
    and "iterate (tweets data) = Inr (before @ tweet # after)"
    and "list_all (tweetOk w) before" and "tweetOk w tweet"
    and key: "tweetId w tweet = Inr key"
  shows "key \<in> ids (posts (pollX_response w s))"
proof -
  obtain e s1 n1 where l: "tweetsLoop w (before @ tweet # after) s 0 = (e, s1, n1)"
    by (cases "tweetsLoop w (before @ tweet # after) s 0") auto
  have i: "key \<in> ids (posts s1)"
    using assms(5,6) l key by (rule tweetsLoop_inserts)
  have "posts (pollX_response w s) = posts s1"
    using assms(1,2,3,4) l by (cases e) (auto simp: pollX_response_def say_def)
  with i show ?thesis by simp
qed

lemma itemOk_fun:
  "itemOk w New = postOk w" "itemOk w (Search k) = postOk w"
  "itemOk w Comments = commentOk w" "itemOk w Tweets = tweetOk w"
  by (rule ext, simp)+

text \<open>A child that is built has an id.\<close>

lemma itemOk_itemId:
  assumes "itemOk w pth child" and "itemKept pth child"
  shows "\<exists>key. itemId w pth child = Inr key"
proof (cases pth)
  case New
  with assms(1) obtain p where "redditPost w child = Inr p"
    by (auto simp: postOk_def split: sum.splits)
  then show ?thesis using New redditPost_id by fastforce
next
  case (Search k)
  with assms(1) obtain p where "redditPost w child = Inr p"
    by (auto simp: postOk_def split: sum.splits)
  then show ?thesis using Search redditPost_id by fastforce
next
  case Comments
  with assms obtain p where "redditComment w (getProp child ''data'') = Inr p"
    by (auto simp: commentOk_def commentKept_def split: sum.splits)
  then show ?thesis using Comments redditComment_id by fastforce
next
  case Tweets
  with assms(1) obtain p where "xPost w child = Inr p"
    by (auto simp: tweetOk_def split: sum.splits)
  then show ?thesis using Tweets xPost_id by fastforce
qed

lemma pollReddit_inserts:
  assumes hook: "\<And>k s. grown P s (others k s)" and sub: "\<And>r. redditRow r \<Longrightarrow> P r"
    and "pth \<noteq> Tweets" and "attempted w pth"
    and "pathResp w pth = Response st (Json data)" and "res_ok st"
    and "iterate (listed pth data) = Inr (before @ child # after)"
    and "list_all (itemOk w pth) before" and "itemOk w pth child" and "itemKept pth child"
    and key: "itemId w pth child = Inr key"
  shows "key \<in> ids (posts (pollReddit others w s))"
proof -
  have post: "\<And>r. postRow r \<Longrightarrow> P r" by (rule sub) (simp add: redditRow_def)
  let ?s0 = "others 0 (say RedditPolling s)"
  obtain s1 n1 where p: "pollPrimary w ?s0 0 = (s1, n1)"
    by (cases "pollPrimary w ?s0 0")
  obtain s2 n2 where l: "searchLoop others w 0 (searchSubs w) s1 n1 = (s2, n2)"
    by (cases "searchLoop others w 0 (searchSubs w) s1 n1")
  let ?s3 = "others (Suc (length (searchSubs w))) (say (RedditDone n2) s2)"
  have eq: "pollReddit others w s = pollSubredditComments w ?s3"
    using p l by (simp add: pollReddit_def)
  have g2: "grown P s1 s2" using hook post l by (rule searchLoop_grown)
  have "grown P (say (RedditDone n2) s2) ?s3" by (rule hook)
  then have g3: "grown P s2 ?s3" by (rule grown_say_left)
  have g4: "grown commentRow ?s3 (pollReddit others w s)"
    unfolding eq by (rule pollSubredditComments_grown)
  show ?thesis
  proof (cases pth)
    case New
    have r: "newResp w = Response st (Json data)" using assms(5) New by simp
    have it: "iterate (children data) = Inr (before @ child # after)"
      using assms(7) New by simp
    have b: "list_all (postOk w) before" using assms(8) New by (simp add: itemOk_fun)
    have c: "postOk w child" using assms(9) New by simp
    have i: "postId w child = Inr key" using key New by simp
    have "key \<in> ids (posts s1)"
      using r assms(6) it b c p i by (rule pollPrimary_inserts)
    with g2 have "key \<in> ids (posts s2)" by (rule grown_id)
    with g3 have "key \<in> ids (posts ?s3)" by (rule grown_id)
    with g4 show ?thesis by (rule grown_id)
  next
    case (Search k)
    have k: "k < length (searchSubs w)" using assms(4) Search by simp
    have r: "searchResp w (0 + k) = Response st (Json data)" using assms(5) Search by simp
    have it: "iterate (children data) = Inr (before @ child # after)"
      using assms(7) Search by simp
    have b: "list_all (postOk w) before" using assms(8) Search by (simp add: itemOk_fun)
    have c: "postOk w child" using assms(9) Search by simp
    have i: "postId w child = Inr key" using key Search by simp
    have "key \<in> ids (posts s2)"
      using hook post k r assms(6) it b c l i by (rule searchLoop_inserts)
    with g3 have "key \<in> ids (posts ?s3)" by (rule grown_id)
    with g4 show ?thesis by (rule grown_id)
  next
    case Comments
    have r: "commentsResp w = Response st (Json data)" using assms(5) Comments by simp
    have it: "iterate (children data) = Inr (before @ child # after)"
      using assms(7) Comments by simp
    have b: "list_all (commentOk w) before" using assms(8) Comments by (simp add: itemOk_fun)
    have c: "commentOk w child" using assms(9) Comments by simp
    have k: "commentKept child" using assms(10) Comments by simp
    have i: "commentId w child = Inr key" using key Comments by simp
    show ?thesis
      unfolding eq using r assms(6) it b c k i by (rule pollSubredditComments_inserts)
  next
    case Tweets
    with assms(3) show ?thesis by simp
  qed
qed

text \<open>What is in the table after wait \<open>k\<close> of \<open>pollReddit\<close> is there when it returns.\<close>

lemma pollReddit_during:
  assumes hook: "\<And>k s. grown P s (others k s)" and sub: "\<And>r. redditRow r \<Longrightarrow> P r"
    and "k \<le> Suc (length (searchSubs w))"
    and at: "\<And>s. x \<in> ids (posts (others k s))"
  shows "x \<in> ids (posts (pollReddit others w s))"
proof -
  have post: "\<And>r. postRow r \<Longrightarrow> P r" by (rule sub) (simp add: redditRow_def)
  let ?s0 = "others 0 (say RedditPolling s)"
  obtain s1 n1 where p: "pollPrimary w ?s0 0 = (s1, n1)"
    by (cases "pollPrimary w ?s0 0")
  obtain s2 n2 where l: "searchLoop others w 0 (searchSubs w) s1 n1 = (s2, n2)"
    by (cases "searchLoop others w 0 (searchSubs w) s1 n1")
  let ?s3 = "others (Suc (length (searchSubs w))) (say (RedditDone n2) s2)"
  have eq: "pollReddit others w s = pollSubredditComments w ?s3"
    using p l by (simp add: pollReddit_def)
  have g1: "grown postRow ?s0 s1" using p by (rule pollPrimary_grown)
  have g2: "grown P s1 s2" using hook post l by (rule searchLoop_grown)
  have "grown P (say (RedditDone n2) s2) ?s3" by (rule hook)
  then have g3: "grown P s2 ?s3" by (rule grown_say_left)
  have g4: "grown commentRow ?s3 (pollReddit others w s)"
    unfolding eq by (rule pollSubredditComments_grown)
  consider "k = 0" | j where "k = Suc j" "j < length (searchSubs w)"
    | "k = Suc (length (searchSubs w))"
    using assms(3) by (cases k) (auto simp: order_le_less)
  then have "x \<in> ids (posts ?s3)"
  proof cases
    case 1
    with at [of "say RedditPolling s"] have "x \<in> ids (posts ?s0)" by simp
    with g1 have "x \<in> ids (posts s1)" by (rule grown_id)
    with g2 have "x \<in> ids (posts s2)" by (rule grown_id)
    with g3 show ?thesis by (rule grown_id)
  next
    case 2
    have "\<And>s. x \<in> ids (posts (others (Suc (0 + j)) s))" using at 2(1) by simp
    with hook post 2(2) have "x \<in> ids (posts s2)" using l by (rule searchLoop_during)
    with g3 show ?thesis by (rule grown_id)
  next
    case 3
    with at [of "say (RedditDone n2) s2"] show ?thesis by simp
  qed
  with g4 show ?thesis by (rule grown_id)
qed

lemma pollAll_inserts:
  assumes "attempted w pth"
    and "pathResp w pth = Response st (Json data)" and "res_ok st"
    and "iterate (listed pth data) = Inr (before @ child # after)"
    and "list_all (itemOk w pth) before" and "itemOk w pth child" and "itemKept pth child"
    and key: "itemId w pth child = Inr key"
  shows "key \<in> ids (posts (pollAll w s))"
proof -
  let ?r = "pollReddit (xTurns w) w s"
  have sub: "\<And>r. redditRow r \<Longrightarrow> cycleRow r" by (auto simp: redditRow_def cycleRow_def)
  have last: "grown xRow ?r (pollX_response w ?r)" by (rule pollX_response_grown)
  show ?thesis
  proof (cases "pth = Tweets")
    case True
    have t: "tokenSet w" using assms(1) True by simp
    have r: "xResp w = Response st (Json data)" using assms(2) True by simp
    have it: "iterate (tweets data) = Inr (before @ child # after)" using assms(4) True by simp
    have b: "list_all (tweetOk w) before" using assms(5) True by (simp add: itemOk_fun)
    have c: "tweetOk w child" using assms(6) True by simp
    have i: "tweetId w child = Inr key" using key True by simp
    have x: "\<And>s. key \<in> ids (posts (pollX_response w s))"
      using t r assms(3) it b c i by (rule pollX_response_inserts)
    show ?thesis
    proof (cases "Suc (length (searchSubs w)) < xTurn w")
      case True
      with x [of ?r] show ?thesis by (simp add: pollAll_def Let_def)
    next
      case False
      then have k: "xTurn w \<le> Suc (length (searchSubs w))" by simp
      have "\<And>s. key \<in> ids (posts (xTurns w (xTurn w) s))"
        using x by (simp add: xTurns_def Let_def)
      with xTurns_cycle sub k have "key \<in> ids (posts ?r)"
        by (rule pollReddit_during)
      with False show ?thesis by (simp add: pollAll_def Let_def)
    qed
  next
    case False
    with xTurns_cycle sub have i: "key \<in> ids (posts ?r)"
      using assms by (rule pollReddit_inserts)
    with last have "key \<in> ids (posts (pollX_response w ?r))" by (rule grown_id)
    with i show ?thesis by (simp add: pollAll_def Let_def)
  qed
qed

lemma grown_prefix: "grown P s s' \<Longrightarrow> \<exists>new. posts s' = posts s @ new"
  by (auto simp: grown_def)

lemma exCycle:
  "map r_id (posts (pollAll exWorld (exState []))) =
     [''x_1785'', ''reddit_1abc'', ''reddit_comment_1abc'']"
  "map r_body (posts (pollAll exWorld (exState []))) =
     [SText ''Sunset in PV'', SNull, SText ''Agreed'']"
  "map r_source (posts (pollAll exWorld (exState []))) = [''x'', ''reddit'', ''reddit_comment'']"
  "console (pollAll exWorld (exState [])) =
     [RedditPolling, XPolling, RedditNewError FetchError, XDone 1,
      RedditStatus ''mexico'' 503, RedditDone 1, CommentsDone 1]"
  "commentBodies (posts (pollAll exWorld (exState []))) = [SText ''Agreed'']"
  by (simp_all add: commentBodies_def pollAll_def xTurns_def pollX_start_def pollX_response_def
     pollReddit_def pollPrimary_def exWorld_def exState_def say_def
     searchSubs_def REDDIT_PRIMARY_SUB_def searchSub_def res_ok_def insertListing_def
     children_def exListing_def optMember_def coalesce_def exPostChild_def redditPost_def
     orElse_def run_def paramsBindable_def insertPost_def ids_def bindParams_def stored_def
     pollSubredditComments_def exCommentChild_def skipped_def redditComment_def
     tokenSet_def tweets_def exTweet_def xPost_def)

lemma cycleRow_comment:
  assumes "cycleRow r" and "r_source r = ''reddit_comment''"
  shows "\<not> sentinelBody (r_body r)"
  using assms by (auto simp: cycleRow_def postRow_def commentRow_def xRow_def sentinelBody_def)

lemma noSentinelComment_grown:
  assumes "grown cycleRow s s'" and "noSentinelComment (posts s)"
  shows "noSentinelComment (posts s')"
proof -
  from assms(1) obtain new where n: "posts s' = posts s @ new" and c: "list_all cycleRow new"
    by (auto simp: grown_def)
  have "list_all (\<lambda>b. \<not> sentinelBody b) (commentBodies new)"
    using c cycleRow_comment by (auto simp: commentBodies_def list_all_iff)
  with assms(2) show ?thesis
    unfolding n by (simp add: noSentinelComment_def commentBodies_def)
qed

lemma sentinel_skipped:
  assumes "b = JUndefined \<or> b = JNull \<or> b = JStr ''[deleted]'' \<or> b = JStr ''[removed]''"
  shows "skipped b"
  using assms by (auto simp: skipped_def)

lemma counts_map:
  "map_of (map (\<lambda>(src, n). (src, JNum (int n))) (countBySource rows)) src =
     (if src \<in> r_source ` set rows
      then Some (JNum (int (length (filter (\<lambda>r. r_source r = src) rows)))) else None)"
proof -
  have "map_of (map (\<lambda>(src, n). (src, JNum (int n))) (countBySource rows)) =
      map_of (map (\<lambda>src. (src, JNum (int (length (filter (\<lambda>r. r_source r = src) rows)))))
        (remdups (map r_source rows)))"
    by (simp add: countBySource_def comp_def)
  then show ?thesis by (simp add: map_of_map_restrict restrict_map_def)
qed

lemma refresh_reply:
  "fst (refresh w s) = pollAll w s \<and>
   snd (refresh w s) src =
     (if src \<in> r_source ` set (posts (pollAll w s))
      then Some (JNum (int (length (filter (\<lambda>r. r_source r = src) (posts (pollAll w s))))))
      else if src = ''ok'' then Some (JBool True) else None)"
  by (simp add: refresh_def Let_def map_add_def counts_map)

lemma exNoToken:
  "map r_id (posts (pollAll (exWorld\<lparr>X_BEARER_TOKEN := None\<rparr>) (exState []))) =
     [''reddit_1abc'', ''reddit_comment_1abc'']"
  "console (pollAll (exWorld\<lparr>X_BEARER_TOKEN := None\<rparr>) (exState [])) =
     [RedditPolling, XSkipping, RedditNewError FetchError, RedditStatus ''mexico'' 503,
      RedditDone 1, CommentsDone 1]"
  by (simp_all add: pollAll_def xTurns_def pollX_start_def pollX_response_def
     pollReddit_def pollPrimary_def exWorld_def exState_def say_def
     searchSubs_def REDDIT_PRIMARY_SUB_def searchSub_def res_ok_def insertListing_def
     children_def exListing_def optMember_def coalesce_def exPostChild_def redditPost_def
     orElse_def run_def paramsBindable_def insertPost_def ids_def bindParams_def stored_def
     pollSubredditComments_def exCommentChild_def skipped_def redditComment_def tokenSet_def)

lemma exDownCycle:
  "posts (pollAll exDown (exState [stored (exItem ''reddit_1abc'') ''2024-05-01 12:05:00''])) =
     [stored (exItem ''reddit_1abc'') ''2024-05-01 12:05:00'']"
  "console (pollAll exDown (exState [stored (exItem ''reddit_1abc'') ''2024-05-01 12:05:00''])) =
     [RedditPolling, XSkipping, RedditNewError FetchError, RedditError ''mexico'' FetchError,
      RedditError ''travel'' FetchError, RedditDone 0, CommentsError FetchError,
      CommentsDone 0]"
  by (simp_all add: pollAll_def xTurns_def pollX_start_def pollX_response_def
     pollReddit_def pollPrimary_def exDown_def exWorld_def
     exState_def say_def searchSubs_def REDDIT_PRIMARY_SUB_def searchSub_def
     pollSubredditComments_def tokenSet_def)

section \<open>The claims\<close>

text \<open>
  C1, as the code has it. With a table whose \<open>id\<close>s are distinct (\<open>id\<close> is the primary
  key), running the insert twice for the same item leaves exactly one row of that
  \<open>id\<close>; the second run reports no change and leaves the table as the first left it.
  The first run reports one change exactly when no row of that \<open>id\<close> was stored
  before, and none when one was. The counter \<open>inserted\<close> of each of the three loops
  (posts, comments, tweets) advances by the number of rows the loop added to the table.
\<close>

theorem upsert_idempotent:
  assumes "distinct (map r_id rows)"
    and "insertPost t1 x rows = (c1, rows1)"
    and "insertPost t2 x rows1 = (c2, rows2)"
    and "postsLoop w cs s n = (e, s', n') \<or> commentsLoop w cs s n = (e, s', n') \<or>
         tweetsLoop w cs s n = (e, s', n')"
  shows "length (filter (\<lambda>r. r_id r = r_id x) rows2) = 1 \<and> c2 = 0 \<and> rows2 = rows1 \<and>
         (c1 = 1) = (r_id x \<notin> ids rows) \<and> (c1 = 0) = (r_id x \<in> ids rows) \<and>
         distinct (map r_id rows2) \<and>
         n' = n + (length (posts s') - length (posts s))"
proof -
  have d1: "distinct (map r_id rows1)" using assms(1,2) by (rule insertPost_distinct)
  have i1: "r_id x \<in> ids rows1" using assms(2) by (rule insertPost_id)
  with assms(3) have second: "c2 = 0 \<and> rows2 = rows1" by (simp add: insertPost_def)
  have "length (filter (\<lambda>r. r_id r = r_id x) rows1) = 1"
    using d1 i1 by (rule distinct_one_row)
  moreover have "(c1 = 1) = (r_id x \<notin> ids rows) \<and> (c1 = 0) = (r_id x \<in> ids rows)"
    using assms(2) by (auto simp: insertPost_def split: if_splits)
  moreover have "n' = n + (length (posts s') - length (posts s))"
  proof -
    have "length (posts s') + n = length (posts s) + n'"
      using assms(4)
      by (elim disjE) (rule postsLoop_count commentsLoop_count tweetsLoop_count, assumption)+
    moreover have "length (posts s) \<le> length (posts s')"
      using assms(4)
    proof (elim disjE)
      assume "postsLoop w cs s n = (e, s', n')"
      from postsLoop_grown [OF this] show ?thesis by (auto simp: grown_def)
    next
      assume "commentsLoop w cs s n = (e, s', n')"
      from commentsLoop_grown [OF this] show ?thesis by (auto simp: grown_def)
    next
      assume "tweetsLoop w cs s n = (e, s', n')"
      from tweetsLoop_grown [OF this] show ?thesis by (auto simp: grown_def)
    qed
    ultimately show ?thesis by simp
  qed
  ultimately show ?thesis using second d1 by simp
qed

text \<open>
  The theorem at an empty table, and at a listing that holds the same post twice: one
  row, and a count of one.
\<close>

theorem upsert_idempotent_witness:
  "distinct (map r_id ([] :: row list)) \<and>
   insertPost ''2024-05-01 12:05:00'' (exItem ''reddit_1abc'') [] =
     (1, [stored (exItem ''reddit_1abc'') ''2024-05-01 12:05:00'']) \<and>
   insertPost ''2024-05-01 12:20:00'' (exItem ''reddit_1abc'')
       [stored (exItem ''reddit_1abc'') ''2024-05-01 12:05:00''] =
     (0, [stored (exItem ''reddit_1abc'') ''2024-05-01 12:05:00'']) \<and>
   length (filter (\<lambda>r. r_id r = r_id (exItem ''reddit_1abc''))
       [stored (exItem ''reddit_1abc'') ''2024-05-01 12:05:00'']) = 1 \<and>
   snd (snd (postsLoop exWorld
       [exPostChild ''1abc'' (JStr []), exPostChild ''1abc'' (JStr [])] (exState []) 0)) = 1 \<and>
   length (posts (fst (snd (postsLoop exWorld
       [exPostChild ''1abc'' (JStr []), exPostChild ''1abc'' (JStr [])] (exState []) 0)))) = 1"
proof -
  let ?x = "exItem ''reddit_1abc''"
  let ?r = "stored ?x ''2024-05-01 12:05:00''"
  let ?cs = "[exPostChild ''1abc'' (JStr []), exPostChild ''1abc'' (JStr [])]"
  let ?R = "postsLoop exWorld ?cs (exState []) 0"
  have a: "distinct (map r_id ([] :: row list))" by simp
  have b: "insertPost ''2024-05-01 12:05:00'' ?x [] = (1, [?r])"
    by (simp add: insertPost_def ids_def)
  have c: "insertPost ''2024-05-01 12:20:00'' ?x [?r] = (0, [?r])"
    by (simp add: insertPost_def ids_def stored_def)
  have d: "?R = (fst ?R, fst (snd ?R), snd (snd ?R)) \<or>
      commentsLoop exWorld ?cs (exState []) 0 = (fst ?R, fst (snd ?R), snd (snd ?R)) \<or>
      tweetsLoop exWorld ?cs (exState []) 0 = (fst ?R, fst (snd ?R), snd (snd ?R))"
    by simp
  have n: "snd (snd ?R) = 1"
    by (simp add: exWorld_def exState_def exPostChild_def redditPost_def orElse_def run_def
        paramsBindable_def insertPost_def ids_def bindParams_def stored_def)
  from upsert_idempotent [OF a b c d] a b c n show ?thesis
    by (simp add: exState_def)
qed

text \<open>
  C1 as it is stated fails where the table already holds the \<open>id\<close>: the first of the
  two runs reports no change.
\<close>

theorem upsert_first_report_counterexample:
  "fst (insertPost ''2024-05-01 12:20:00'' (exItem ''reddit_1abc'')
          [stored (exItem ''reddit_1abc'') ''2024-05-01 12:05:00'']) = 0"
  by (simp add: insertPost_def ids_def stored_def exItem_def)

text \<open>
  C2. A post and a comment of the same native id get the ids \<open>reddit_\<close> and
  \<open>reddit_comment_\<close> followed by its text, which differ. Inserted one after the other, both
  ids are in the table; whether each is inserted as a new row depends on the table
  before the two inserts alone, and where neither id was stored the table gains both
  rows.
\<close>

theorem cross_source_uniqueness:
  assumes "redditPost w child = Inr p" and "redditComment w c = Inr q"
    and "getProp (getProp child ''data'') ''id'' = getProp c ''id''"
    and "insertPost t1 (bindParams p) rows = (c1, rows1)"
    and "insertPost t2 (bindParams q) rows1 = (c2, rows2)"
  shows "(\<exists>native. toStr (numberText w) (getProp c ''id'') = Inr native \<and>
            p_id p = ''reddit_'' @ native \<and> p_id q = ''reddit_comment_'' @ native) \<and>
         p_id p \<noteq> p_id q \<and> p_id p \<in> ids rows2 \<and> p_id q \<in> ids rows2 \<and>
         (c1 = 1) = (p_id p \<notin> ids rows) \<and> (c2 = 1) = (p_id q \<notin> ids rows) \<and>
         (p_id p \<notin> ids rows \<and> p_id q \<notin> ids rows \<longrightarrow>
            rows2 = rows @ [stored (bindParams p) t1, stored (bindParams q) t2])"
proof -
  have "prefixed ''reddit_'' (toStr (numberText w) (getProp c ''id'')) = Inr (p_id p)"
    using redditPost_id [OF assms(1)] assms(3) by (simp add: postId_def)
  moreover have
    "prefixed ''reddit_comment_'' (toStr (numberText w) (getProp c ''id'')) = Inr (p_id q)"
    using assms(2) by (rule redditComment_native)
  ultimately obtain native where nat: "toStr (numberText w) (getProp c ''id'') = Inr native"
    and ip: "p_id p = ''reddit_'' @ native" and iq: "p_id q = ''reddit_comment_'' @ native"
    by (auto simp: prefixed_def split: sum.splits)
  have ne: "p_id p \<noteq> p_id q" unfolding ip iq by (rule prefix_ids_neq)
  have rp: "r_id (bindParams p) = p_id p" and rq: "r_id (bindParams q) = p_id q"
    by (simp_all add: bindParams_def)
  have r1: "rows1 = (if p_id p \<in> ids rows then rows else rows @ [stored (bindParams p) t1])"
    and c1: "(c1 = 1) = (p_id p \<notin> ids rows)"
    using assms(4) rp by (auto simp: insertPost_def split: if_splits)
  have in1: "(p_id q \<in> ids rows1) = (p_id q \<in> ids rows)"
    using ne rp unfolding r1 by (auto simp: ids_def stored_def)
  have r2: "rows2 = (if p_id q \<in> ids rows then rows1 else rows1 @ [stored (bindParams q) t2])"
    and c2: "(c2 = 1) = (p_id q \<notin> ids rows)"
    using assms(5) rq in1 by (auto simp: insertPost_def split: if_splits)
  have "p_id q \<in> ids rows2" using insertPost_id [OF assms(5)] rq by simp
  moreover have "p_id p \<in> ids rows1" using insertPost_id [OF assms(4)] rp by simp
  then have "p_id p \<in> ids rows2" unfolding r2 by (auto simp: ids_def)
  ultimately show ?thesis using nat ip iq ne c1 c2 r1 r2 by simp
qed

text \<open>The theorem at a post and a comment that both have the native id \<open>1abc\<close>.\<close>

theorem cross_source_uniqueness_witness:
  "(case redditPost exWorld (exPostChild ''1abc'' (JStr [])) of
      Inl e \<Rightarrow> False
    | Inr p \<Rightarrow>
        (case redditComment exWorld
                (getProp (exCommentChild ''1abc'' (JStr ''Agreed'')) ''data'') of
           Inl e \<Rightarrow> False
         | Inr q \<Rightarrow>
             p_id p = ''reddit_1abc'' \<and> p_id q = ''reddit_comment_1abc'' \<and>
             map r_id (snd (insertPost ''2024-05-01 12:05:01'' (bindParams q)
                 (snd (insertPost ''2024-05-01 12:05:00'' (bindParams p) [])))) =
               [''reddit_1abc'', ''reddit_comment_1abc'']))"
proof -
  let ?c = "getProp (exCommentChild ''1abc'' (JStr ''Agreed'')) ''data''"
  obtain p where p: "redditPost exWorld (exPostChild ''1abc'' (JStr [])) = Inr p"
    by (simp add: redditPost_def exWorld_def exPostChild_def)
  obtain q where q: "redditComment exWorld ?c = Inr q"
    by (simp add: redditComment_def exWorld_def exCommentChild_def)
  have same: "getProp (getProp (exPostChild ''1abc'' (JStr [])) ''data'') ''id'' = getProp ?c ''id''"
    by (simp add: exPostChild_def exCommentChild_def)
  let ?one = "insertPost ''2024-05-01 12:05:00'' (bindParams p) []"
  let ?two = "insertPost ''2024-05-01 12:05:01'' (bindParams q) (snd ?one)"
  have a: "?one = (fst ?one, snd ?one)" and b: "?two = (fst ?two, snd ?two)" by simp_all
  have cid: "toStr (numberText exWorld) (getProp ?c ''id'') = Inr ''1abc''"
    by (simp add: exCommentChild_def)
  note th = cross_source_uniqueness [OF p q same a b]
  from th have ip: "p_id p = ''reddit_1abc''" and iq: "p_id q = ''reddit_comment_1abc''"
    by (auto simp: cid)
  from th have "snd ?two =
      [stored (bindParams p) ''2024-05-01 12:05:00'', stored (bindParams q) ''2024-05-01 12:05:01'']"
    by (simp add: ids_def)
  then have "map r_id (snd ?two) = [p_id p, p_id q]"
    by (simp add: stored_def bindParams_def)
  with ip iq p q show ?thesis by simp
qed

text \<open>
  C3. Take any request the cycle makes that is answered 2xx with JSON, and any child of
  its listing that the loop reaches without an exception: for the children before it
  and for the child itself no property read, template literal or date throws, and every
  parameter can be bound. Such a child has an id, the text its template literal gives.
  Whatever the other requests of the cycle do
  (a fetch that rejects, a status that is not ok, a body that cannot be read or parsed,
  a listing of the wrong shape, the whole of the other poller failing), and whenever
  the response of X is handled, the child's id is in the table when the cycle ends.
  Every exception of a \<open>try\<close> block is caught and logged, so \<open>pollAll\<close> returns in
  every world, with the table it was given and the new rows after it.
\<close>

theorem partial_failure_isolation:
  assumes "attempted w pth"
    and "pathResp w pth = Response st (Json data)" and "res_ok st"
    and "iterate (listed pth data) = Inr (before @ child # after)"
    and "list_all (itemOk w pth) before" and "itemOk w pth child" and "itemKept pth child"
  shows "(\<exists>key. itemId w pth child = Inr key \<and> key \<in> ids (posts (pollAll w s))) \<and>
         (\<exists>new. posts (pollAll w s) = posts s @ new)"
proof -
  obtain key where key: "itemId w pth child = Inr key"
    using assms(6,7) itemOk_itemId by blast
  from assms key have "key \<in> ids (posts (pollAll w s))" by (rule pollAll_inserts)
  with key show ?thesis using pollAll_grown [of s w] by (simp add: grown_prefix)
qed

text \<open>
  The theorem at a cycle whose primary listing cannot be fetched and whose first search
  answers 503: the post of the second search and the comment are stored.
\<close>

theorem partial_failure_isolation_witness:
  "newResp exWorld = FetchFailed \<and> searchResp exWorld 0 = Response 503 NotJson \<and>
   \<not> res_ok 503 \<and>
   itemId exWorld (Search 1) (exPostChild ''1abc'' (JStr [])) = Inr ''reddit_1abc'' \<and>
   itemId exWorld Comments (exCommentChild ''1abc'' (JStr ''Agreed'')) =
     Inr ''reddit_comment_1abc'' \<and>
   ''reddit_1abc'' \<in> ids (posts (pollAll exWorld (exState []))) \<and>
   ''reddit_comment_1abc'' \<in> ids (posts (pollAll exWorld (exState [])))"
proof -
  let ?post = "exPostChild ''1abc'' (JStr [])"
  let ?gone = "exCommentChild ''0'' (JStr ''[deleted]'')"
  let ?kept = "exCommentChild ''1abc'' (JStr ''Agreed'')"
  have a1: "attempted exWorld (Search 1)"
    by (simp add: searchSubs_def exWorld_def REDDIT_PRIMARY_SUB_def)
  have r1: "pathResp exWorld (Search 1) = Response 200 (Json (exListing [?post]))"
    by (simp add: exWorld_def)
  have ok: "res_ok 200" by (simp add: res_ok_def)
  have l1: "iterate (listed (Search 1) (exListing [?post])) = Inr ([] @ ?post # [])"
    by (simp add: children_def exListing_def optMember_def coalesce_def)
  have b1: "list_all (itemOk exWorld (Search 1)) []" by simp
  have c1: "itemOk exWorld (Search 1) ?post"
    by (simp add: postOk_def redditPost_def exWorld_def exPostChild_def paramsBindable_def
        orElse_def)
  have k1: "itemKept (Search 1) ?post" by simp
  have a2: "attempted exWorld Comments" by simp
  have r2: "pathResp exWorld Comments = Response 200 (Json (exListing [?gone, ?kept]))"
    by (simp add: exWorld_def)
  have l2: "iterate (listed Comments (exListing [?gone, ?kept])) = Inr ([?gone] @ ?kept # [])"
    by (simp add: children_def exListing_def optMember_def coalesce_def)
  have b2: "list_all (itemOk exWorld Comments) [?gone]"
    by (simp add: commentOk_def exCommentChild_def skipped_def)
  have c2: "itemOk exWorld Comments ?kept"
    by (simp add: commentOk_def exCommentChild_def skipped_def redditComment_def exWorld_def
        paramsBindable_def)
  have k2: "itemKept Comments ?kept"
    by (simp add: commentKept_def exCommentChild_def skipped_def)
  have i1: "itemId exWorld (Search 1) ?post = Inr ''reddit_1abc''"
    by (simp add: postId_def prefixed_def exPostChild_def)
  have i2: "itemId exWorld Comments ?kept = Inr ''reddit_comment_1abc''"
    by (simp add: commentId_def prefixed_def exCommentChild_def)
  have f: "newResp exWorld = FetchFailed \<and> searchResp exWorld 0 = Response 503 NotJson \<and>
      \<not> res_ok 503"
    by (simp add: exWorld_def res_ok_def)
  from partial_failure_isolation [OF a1 r1 ok l1 b1 c1 k1, of "exState []"]
    partial_failure_isolation [OF a2 r2 ok l2 b2 c2 k2, of "exState []"] i1 i2 f
  show ?thesis by simp
qed

text \<open>
  C4, as the code has it. The handler runs one cycle and sends an object that holds,
  for every source with rows in the table after the cycle, the number of rows of that
  source in the table, and \<open>ok: true\<close> (unless rows of a source named \<open>ok\<close> are
  stored, whose count then takes its place), and nothing else. No property tells how a
  source fared in the cycle, and the numbers are totals, not the rows the cycle
  inserted.
\<close>

theorem refresh_summary:
  "fst (refresh w s) = pollAll w s \<and>
   snd (refresh w s) src =
     (if src \<in> r_source ` set (posts (pollAll w s))
      then Some (JNum (int (length (filter (\<lambda>r. r_source r = src) (posts (pollAll w s))))))
      else if src = ''ok'' then Some (JBool True) else None)"
  by (rule refresh_reply)

text \<open>
  C4 as it is stated fails on a cycle in which every request fails, run on a table of
  one post: the cycle inserts nothing and logs the failures, and the object sent is
  \<open>{ ok: true, reddit: 1 }\<close>.
\<close>

theorem refresh_summary_counterexample:
  "snd (refresh exDown (exState [stored (exItem ''reddit_1abc'') ''2024-05-01 12:05:00'']))
     ''reddit'' = Some (JNum 1) \<and>
   snd (refresh exDown (exState [stored (exItem ''reddit_1abc'') ''2024-05-01 12:05:00'']))
     ''ok'' = Some (JBool True) \<and>
   dom (snd (refresh exDown
     (exState [stored (exItem ''reddit_1abc'') ''2024-05-01 12:05:00'']))) = {''ok'', ''reddit''} \<and>
   posts (fst (refresh exDown
     (exState [stored (exItem ''reddit_1abc'') ''2024-05-01 12:05:00'']))) =
     posts (exState [stored (exItem ''reddit_1abc'') ''2024-05-01 12:05:00'']) \<and>
   console (fst (refresh exDown
     (exState [stored (exItem ''reddit_1abc'') ''2024-05-01 12:05:00'']))) =
     [RedditPolling, XSkipping, RedditNewError FetchError, RedditError ''mexico'' FetchError,
      RedditError ''travel'' FetchError, RedditDone 0, CommentsError FetchError,
      CommentsDone 0]"
proof -
  let ?s = "exState [stored (exItem ''reddit_1abc'') ''2024-05-01 12:05:00'']"
  have src: "r_source ` set (posts (pollAll exDown ?s)) = {''reddit''}"
    unfolding exDownCycle(1) by (simp add: stored_def exItem_def)
  have n: "length (filter (\<lambda>r. r_source r = ''reddit'') (posts (pollAll exDown ?s))) = 1"
    unfolding exDownCycle(1) by (simp add: stored_def exItem_def)
  have "snd (refresh exDown ?s) k =
      (if k = ''reddit'' then Some (JNum 1) else if k = ''ok'' then Some (JBool True) else None)"
    for k
    using refresh_reply [of exDown ?s k] n unfolding src by auto
  then have m: "snd (refresh exDown ?s) =
      (\<lambda>k. if k = ''reddit'' then Some (JNum 1) else if k = ''ok'' then Some (JBool True) else None)"
    by (rule ext)
  have d: "dom (snd (refresh exDown ?s)) = {''ok'', ''reddit''}"
    unfolding m by (auto simp: dom_def)
  have f: "fst (refresh exDown ?s) = pollAll exDown ?s"
    using refresh_reply [of exDown ?s "''ok''"] by simp
  show ?thesis using m d exDownCycle unfolding f by (simp add: exState_def)
qed

text \<open>
  C5. When a row of the same \<open>id\<close> is stored, the insert changes nothing: the table
  after it is the table before it, so every column of every stored row is as it was,
  and \<open>run\<close> reports no change.
\<close>

theorem first_write_wins:
  assumes "r_id x \<in> ids rows" and "p_id p \<in> ids (posts s)" and "run w p s = Inr (c, s')"
  shows "insertPost now x rows = (0, rows) \<and> c = 0 \<and> posts s' = posts s"
  using assms(1) run_cases(4) [OF assms(3) assms(2)] by (simp add: insertPost_def)

text \<open>
  The theorem at a table that holds the post, and the post fetched again with its text
  edited: the stored row stays as it was.
\<close>

theorem first_write_wins_witness:
  "r_id ((exItem ''reddit_1abc'')\<lparr>r_title := SText ''Edited''\<rparr>)
     \<in> ids [stored (exItem ''reddit_1abc'') ''2024-05-01 12:05:00''] \<and>
   insertPost ''2024-05-01 12:20:00'' ((exItem ''reddit_1abc'')\<lparr>r_title := SText ''Edited''\<rparr>)
       [stored (exItem ''reddit_1abc'') ''2024-05-01 12:05:00''] =
     (0, [stored (exItem ''reddit_1abc'') ''2024-05-01 12:05:00'']) \<and>
   (case redditPost exWorld (exPostChild ''1abc'' (JStr ''Edited'')) of
      Inl e \<Rightarrow> False
    | Inr p \<Rightarrow>
        (case run exWorld p (exState [stored (exItem ''reddit_1abc'') ''2024-05-01 12:05:00'']) of
           Inl e \<Rightarrow> False
         | Inr (c, s') \<Rightarrow>
             c = 0 \<and> posts s' = [stored (exItem ''reddit_1abc'') ''2024-05-01 12:05:00'']))"
proof -
  let ?row = "stored (exItem ''reddit_1abc'') ''2024-05-01 12:05:00''"
  let ?x = "(exItem ''reddit_1abc'')\<lparr>r_title := SText ''Edited''\<rparr>"
  obtain p where p: "redditPost exWorld (exPostChild ''1abc'' (JStr ''Edited'')) = Inr p"
    by (simp add: redditPost_def exWorld_def exPostChild_def)
  have pid: "p_id p = ''reddit_1abc''"
    using redditPost_id [OF p] by (simp add: postId_def prefixed_def exPostChild_def)
  have "paramsBindable p"
    using p by (auto simp: redditPost_def exWorld_def exPostChild_def paramsBindable_def orElse_def)
  then obtain c s' where r: "run exWorld p (exState [?row]) = Inr (c, s')"
    using run_bindable by blast
  have a: "r_id ?x \<in> ids [?row]" by (simp add: ids_def stored_def exItem_def)
  have b: "p_id p \<in> ids (posts (exState [?row]))"
    using pid by (simp add: ids_def stored_def exItem_def exState_def)
  from first_write_wins [OF a b r, of "''2024-05-01 12:20:00''"] a p r show ?thesis
    by (simp add: exState_def)
qed

text \<open>
  C6, as the code has it. Both queries return rows of the table (of the asked source,
  for \<open>selectBySource\<close>) in descending order of the stored \<open>created_at\<close> text, which
  SQLite compares byte by byte: no row's text is less than the next row's, and rows of
  equal text follow one another.
\<close>

theorem reads_descending:
  "descending (selectAll rows) \<and> descending (selectBySource src rows) \<and>
   set (selectAll rows) \<subseteq> set rows \<and>
   set (selectBySource src rows) \<subseteq> {r \<in> set rows. r_source r = src}"
proof -
  have "set (take 400 (orderByCreatedAtDesc rows)) \<subseteq> set rows"
    using set_take_subset [of 400 "orderByCreatedAtDesc rows"] by (simp add: set_orderBy)
  moreover have "set (take 200 (orderByCreatedAtDesc (filter (\<lambda>r. r_source r = src) rows)))
      \<subseteq> {r \<in> set rows. r_source r = src}"
    using set_take_subset [of 200 "orderByCreatedAtDesc (filter (\<lambda>r. r_source r = src) rows)"]
    by (auto simp: set_orderBy)
  ultimately show ?thesis
    by (simp add: selectAll_def selectBySource_def descending_take descending_orderBy)
qed

text \<open>C6 as it is stated fails on two rows created at the same instant.\<close>

theorem reads_strictly_descending_counterexample:
  "\<not> strictlyDescending
       (selectAll [stored (exItem ''reddit_1abc'') ''2024-05-01 12:05:00'',
                   stored (exItem ''reddit_2def'') ''2024-05-01 12:05:00''])"
  by (simp add: selectAll_def orderByCreatedAtDesc_def stored_def exItem_def)

text \<open>
  The order is that of the texts, not of the instants they name: \<open>toISOString\<close>
  writes a year beyond 9999 with a sign and six digits, and such a row is returned after
  a row of 2024.
\<close>

lemma reads_text_order_example:
  "map r_created_at
     (selectAll
        [stored ((exItem ''reddit_1abc'')\<lparr>r_created_at := ''+010000-01-01T00:00:00.000Z''\<rparr>)
           ''2024-05-01 12:05:00'',
         stored (exItem ''reddit_2def'') ''2024-05-01 12:05:00'']) =
   [''2024-05-01T12:00:00.000Z'', ''+010000-01-01T00:00:00.000Z'']"
  by (simp add: selectAll_def orderByCreatedAtDesc_def stored_def exItem_def)

text \<open>
  C7. A child of the comments listing whose body is missing, \<open>null\<close>,
  \<open>[deleted]\<close> or \<open>[removed]\<close> adds no row: the loop passes it over, or stops at it
  with a TypeError when the child or its \<open>data\<close> is \<open>null\<close>. And a table in which no
  row of source \<open>reddit_comment\<close> has such a body (or the empty string) is still such a
  table after a cycle.
\<close>

theorem sentinel_filtering:
  assumes "noSentinelComment (posts s)"
    and "b = getProp (getProp child ''data'') ''body''"
    and "b = JUndefined \<or> b = JNull \<or> b = JStr ''[deleted]'' \<or> b = JStr ''[removed]''"
  shows "noSentinelComment (posts (pollAll w s)) \<and>
         (commentsLoop w (child # rest) s0 n = commentsLoop w rest s0 n \<or>
          commentsLoop w (child # rest) s0 n = (Some TypeError, s0, n))"
proof -
  have "skipped (getProp (getProp child ''data'') ''body'')"
    using assms(2,3) sentinel_skipped by simp
  then have "commentsLoop w (child # rest) s0 n = commentsLoop w rest s0 n \<or>
      commentsLoop w (child # rest) s0 n = (Some TypeError, s0, n)"
    by (simp add: Let_def)
  moreover have "noSentinelComment (posts (pollAll w s))"
    using pollAll_grown assms(1) by (rule noSentinelComment_grown)
  ultimately show ?thesis by simp
qed

text \<open>The theorem at a listing with a deleted comment and a comment that is kept.\<close>

theorem sentinel_filtering_witness:
  "noSentinelComment (posts (exState [])) \<and>
   getProp (getProp (exCommentChild ''0'' (JStr ''[deleted]'')) ''data'') ''body'' =
     JStr ''[deleted]'' \<and>
   commentsLoop exWorld [exCommentChild ''0'' (JStr ''[deleted]'')] (exState []) 0 =
     (None, exState [], 0) \<and>
   noSentinelComment (posts (pollAll exWorld (exState []))) \<and>
   commentBodies (posts (pollAll exWorld (exState []))) = [SText ''Agreed'']"
proof -
  let ?gone = "exCommentChild ''0'' (JStr ''[deleted]'')"
  have a: "noSentinelComment (posts (exState []))"
    by (simp add: noSentinelComment_def commentBodies_def exState_def)
  have b: "JStr ''[deleted]'' = getProp (getProp ?gone ''data'') ''body''"
    by (simp add: exCommentChild_def)
  have c: "JStr ''[deleted]'' = JUndefined \<or> JStr ''[deleted]'' = JNull \<or>
      JStr ''[deleted]'' = JStr ''[deleted]'' \<or> JStr ''[deleted]'' = JStr ''[removed]''"
    by simp
  have d: "commentsLoop exWorld [?gone] (exState []) 0 = (None, exState [], 0)"
    by (simp add: exCommentChild_def skipped_def)
  note e = exCycle(5)
  from sentinel_filtering [OF a b c, of exWorld "[]" "exState []" 0] a b d e show ?thesis
    by simp
qed

text \<open>
  C8. When \<open>X_BEARER_TOKEN\<close> is not set, or empty, \<open>pollX\<close> writes one warning,
  which is no error line, and returns. The cycle is then \<open>pollReddit\<close>, with that
  warning written during its first wait and nothing else done beside it, and the rows
  of source \<open>x\<close> in the table after the cycle are those it had before.
\<close>

theorem credential_gating:
  assumes "\<not> tokenSet w"
  shows "pollX w s = say XSkipping s \<and> \<not> isError XSkipping \<and>
         pollAll w s = pollReddit warnOnce w s \<and>
         filter (\<lambda>r. r_source r = ''x'') (posts (pollAll w s)) =
           filter (\<lambda>r. r_source r = ''x'') (posts s)"
proof -
  have x: "pollX w s = say XSkipping s"
    using assms by (simp add: pollX_def pollX_start_def pollX_response_def)
  have "xTurns w k t = warnOnce k t" for k t
    using assms by (simp add: xTurns_def warnOnce_def pollX_start_def pollX_response_def)
  then have "xTurns w = warnOnce" by (intro ext)
  moreover have "pollX_response w t = t" for t
    using assms by (simp add: pollX_response_def)
  ultimately have all: "pollAll w s = pollReddit warnOnce w s"
    by (simp add: pollAll_def Let_def)
  have "grown redditRow t (warnOnce k t)" for k t
    by (simp add: warnOnce_def grown_refl grown_say)
  then have "grown redditRow s (pollReddit warnOnce w s)"
    by (rule pollReddit_grown)
  then obtain new where n: "posts (pollReddit warnOnce w s) = posts s @ new"
    and r: "list_all redditRow new"
    by (auto simp: grown_def)
  have "filter (\<lambda>r. r_source r = ''x'') new = []"
    using r by (auto simp: filter_empty_conv list_all_iff redditRow_def postRow_def commentRow_def)
  then show ?thesis using x all n by simp
qed

text \<open>The theorem at the cycle above with the token taken away.\<close>

theorem credential_gating_witness:
  "\<not> tokenSet (exWorld\<lparr>X_BEARER_TOKEN := None\<rparr>) \<and>
   \<not> tokenSet (exWorld\<lparr>X_BEARER_TOKEN := Some []\<rparr>) \<and>
   map r_id (posts (pollAll (exWorld\<lparr>X_BEARER_TOKEN := None\<rparr>) (exState []))) =
     [''reddit_1abc'', ''reddit_comment_1abc''] \<and>
   console (pollAll (exWorld\<lparr>X_BEARER_TOKEN := None\<rparr>) (exState [])) =
     [RedditPolling, XSkipping, RedditNewError FetchError, RedditStatus ''mexico'' 503,
      RedditDone 1, CommentsDone 1] \<and>
   filter (\<lambda>r. r_source r = ''x'')
     (posts (pollAll (exWorld\<lparr>X_BEARER_TOKEN := None\<rparr>) (exState []))) = []"
proof -
  have a: "\<not> tokenSet (exWorld\<lparr>X_BEARER_TOKEN := None\<rparr>)"
    and b: "\<not> tokenSet (exWorld\<lparr>X_BEARER_TOKEN := Some []\<rparr>)"
    by (simp_all add: tokenSet_def)
  note th = credential_gating [OF a, of "exState []"]
  from th have f: "filter (\<lambda>r. r_source r = ''x'')
        (posts (pollAll (exWorld\<lparr>X_BEARER_TOKEN := None\<rparr>) (exState []))) =
      filter (\<lambda>r. r_source r = ''x'') (posts (exState []))"
    by blast
  have "filter (\<lambda>r. r_source r = ''x'')
      (posts (pollAll (exWorld\<lparr>X_BEARER_TOKEN := None\<rparr>) (exState []))) = []"
    unfolding f by (simp add: exState_def)
  then show ?thesis using a b exNoToken by simp
qed

text \<open>
  C9. \<open>selectBySource\<close> returns at most 200 rows and \<open>selectAll\<close> at most 400,
  whatever the table holds: as many as there are rows to return, up to the cap.
\<close>

theorem bounded_query_results:
  "length (selectBySource src rows) \<le> 200 \<and> length (selectAll rows) \<le> 400 \<and>
   length (selectBySource src rows) = min 200 (length (filter (\<lambda>r. r_source r = src) rows)) \<and>
   length (selectAll rows) = min 400 (length rows)"
  by (simp add: selectBySource_def selectAll_def length_orderBy min.commute)



end
